theory Spec2Isabelle
  imports Complex_Main "HOL-Library.Word" "HOL-Library.Log_Nat"
begin

section \<open>Go's float64 and its conversions\<close>

text \<open>
  The package \<open>prom\<close> keeps a metric in one \<open>int64\<close> and converts from and to \<open>float64\<close> at
  every call, so the properties of the package are properties of those conversions. A
  \<open>float64\<close> is modelled by its value: a finite number is sign, mantissa and exponent,
  \<open>Finite s m e\<close> standing for \<open>(-1)^s * m * 2^e\<close>, in the canonical form of IEEE 754 binary64
  (\<open>is_float64\<close>); the NaNs are one value.
\<close>

datatype float64 = Finite bool int int | Infinity bool | NaN

fun is_float64 :: "float64 \<Rightarrow> bool" where
  "is_float64 (Finite s m e) =
     ((2 ^ 52 \<le> m \<and> m < 2 ^ 53 \<and> - 1074 \<le> e \<and> e \<le> 971) \<or> (0 \<le> m \<and> m < 2 ^ 52 \<and> e = - 1074))"
| "is_float64 (Infinity s) = True"
| "is_float64 NaN = True"

text \<open>The number of binary digits of a positive integer.\<close>

function bit_length :: "int \<Rightarrow> int" where
  "bit_length n = (if n \<le> 0 then 0 else bit_length (n div 2) + 1)"
  by pat_completeness auto
termination
  by (relation "measure nat") auto

declare bit_length.simps [simp del]

text \<open>
  \<open>round_even s M E\<close> rounds \<open>(-1)^s * M * 2^E\<close> (\<open>M \<ge> 0\<close>) to the nearest float64, ties to the
  even mantissa: \<open>sh\<close> low bits of \<open>M\<close> are dropped so that 53 bits stay, or fewer at the bottom
  of the exponent range; what exceeds the largest finite number becomes an infinity.
\<close>

definition round_even :: "bool \<Rightarrow> int \<Rightarrow> int \<Rightarrow> float64" where
  "round_even s M E =
     (if M = 0 then Finite s 0 (- 1074)
      else
        let sh = max (bit_length M - 53) (- 1074 - E);
            q = (if sh \<le> 0 then M * 2 ^ nat (- sh) else M div 2 ^ nat sh);
            r = (if sh \<le> 0 then 0 else M mod 2 ^ nat sh);
            h = (if sh \<le> 0 then 1 else 2 ^ nat (sh - 1));
            m = (if h < r \<or> (r = h \<and> odd q) then q + 1 else q);
            e = E + sh
        in if m = 2 ^ 53 then (if 971 < e + 1 then Infinity s else Finite s (2 ^ 52) (e + 1))
           else if 971 < e then Infinity s else Finite s m e)"

text \<open>
  \<open>round_ratio s n d E\<close> rounds \<open>(-1)^s * (n / d) * 2^E\<close> (\<open>n \<ge> 0\<close>, \<open>d > 0\<close>): the quotient is
  taken to at least 55 bits, and one more bit records whether the division left a remainder.
\<close>

definition round_ratio :: "bool \<Rightarrow> int \<Rightarrow> int \<Rightarrow> int \<Rightarrow> float64" where
  "round_ratio s n d E =
     (let k = nat (max 0 (bit_length d - bit_length n + 56));
          q = (n * 2 ^ k) div d;
          r = (n * 2 ^ k) mod d
      in round_even s (2 * q + (if r = 0 then 0 else 1)) (E - int k - 1))"

text \<open>An integer converted to float64, and a constant \<open>n / d\<close> of the source text.\<close>

definition float64_of_int :: "int \<Rightarrow> float64" where
  "float64_of_int i = round_even (i < 0) \<bar>i\<bar> 0"

definition float64_const :: "int \<Rightarrow> int \<Rightarrow> float64" where
  "float64_const n d = round_ratio (n < 0) \<bar>n\<bar> d 0"

text \<open>Multiplication and division of IEEE 754, rounding to nearest even.\<close>

fun fmul :: "float64 \<Rightarrow> float64 \<Rightarrow> float64" where
  "fmul NaN y = NaN"
| "fmul x NaN = NaN"
| "fmul (Infinity s) (Infinity t) = Infinity (s \<noteq> t)"
| "fmul (Infinity s) (Finite t n f) = (if n = 0 then NaN else Infinity (s \<noteq> t))"
| "fmul (Finite s m e) (Infinity t) = (if m = 0 then NaN else Infinity (s \<noteq> t))"
| "fmul (Finite s m e) (Finite t n f) = round_even (s \<noteq> t) (m * n) (e + f)"

fun fdiv :: "float64 \<Rightarrow> float64 \<Rightarrow> float64" where
  "fdiv NaN y = NaN"
| "fdiv x NaN = NaN"
| "fdiv (Infinity s) (Infinity t) = NaN"
| "fdiv (Infinity s) (Finite t n f) = Infinity (s \<noteq> t)"
| "fdiv (Finite s m e) (Infinity t) = Finite (s \<noteq> t) 0 (- 1074)"
| "fdiv (Finite s m e) (Finite t n f) =
     (if n = 0 then (if m = 0 then NaN else Infinity (s \<noteq> t))
      else round_ratio (s \<noteq> t) m n (e - f))"

text \<open>
  Comparison. A float64 is put on one integer scale, in units of \<open>2^-1074\<close>, the infinities
  at \<open>2^1024\<close>; a NaN compares false with everything.
\<close>

fun units :: "float64 \<Rightarrow> int" where
  "units (Finite s m e) = (if s then - (m * 2 ^ nat (e + 1074)) else m * 2 ^ nat (e + 1074))"
| "units (Infinity s) = (if s then - (2 ^ 2098) else 2 ^ 2098)"
| "units NaN = 0"

definition flt :: "float64 \<Rightarrow> float64 \<Rightarrow> bool" where
  "flt x y = (x \<noteq> NaN \<and> y \<noteq> NaN \<and> units x < units y)"

definition fle :: "float64 \<Rightarrow> float64 \<Rightarrow> bool" where
  "fle x y = (x \<noteq> NaN \<and> y \<noteq> NaN \<and> units x \<le> units y)"

definition feq :: "float64 \<Rightarrow> float64 \<Rightarrow> bool" where
  "feq x y = (x \<noteq> NaN \<and> y \<noteq> NaN \<and> units x = units y)"

text \<open>
  Conversion to an integer discards the fraction (truncation towards zero). Where the
  truncated value does not fit the integer type, or the operand is a NaN, Go leaves the result
  to the implementation; the model takes what the gc compiler gives on amd64, the bit pattern
  \<open>0x8000000000000000\<close>.
\<close>

fun trunc_zero :: "float64 \<Rightarrow> int option" where
  "trunc_zero (Finite s m e) =
     (let t = (if 0 \<le> e then m * 2 ^ nat e else m div 2 ^ nat (- e))
      in Some (if s then - t else t))"
| "trunc_zero (Infinity s) = None"
| "trunc_zero NaN = None"

definition int64_of_float64 :: "float64 \<Rightarrow> 64 word" where
  "int64_of_float64 x =
     (case trunc_zero x of
        Some t \<Rightarrow> if - (2 ^ 63) \<le> t \<and> t < 2 ^ 63 then word_of_int t else 0x8000000000000000
      | None \<Rightarrow> 0x8000000000000000)"

definition uint_of_float64 :: "float64 \<Rightarrow> 64 word" where
  "uint_of_float64 x =
     (case trunc_zero x of
        Some t \<Rightarrow> if - (2 ^ 63) \<le> t \<and> t < 2 ^ 64 then word_of_int t else 0x8000000000000000
      | None \<Rightarrow> 0x8000000000000000)"

definition float64_of_int64 :: "64 word \<Rightarrow> float64" where
  "float64_of_int64 w = float64_of_int (sint w)"

definition float64_of_uint :: "64 word \<Rightarrow> float64" where
  "float64_of_uint w = float64_of_int (uint w)"

text \<open>
  \<open>math.Pow10\<close> of Go's standard library: the product, or the quotient, of two entries of
  its tables of the constants \<open>1e0 .. 1e31\<close> and \<open>1e0, 1e32, 1e64, ..\<close>, an infinity above
  \<open>1e308\<close> and zero below \<open>1e-323\<close>.
\<close>

definition Pow10 :: "int \<Rightarrow> float64" where
  "Pow10 n =
     (if 0 \<le> n \<and> n \<le> 308
        then fmul (float64_const (10 ^ (32 * (nat n div 32))) 1) (float64_const (10 ^ (nat n mod 32)) 1)
      else if - 323 \<le> n \<and> n \<le> 0
        then fdiv (float64_const 1 (10 ^ (32 * (nat (- n) div 32)))) (float64_const (10 ^ (nat (- n) mod 32)) 1)
      else if 0 < n then Infinity False
      else Finite False 0 (- 1074))"

section \<open>FixedPrecisionGauge\<close>

text \<open>
  The struct of the source: \<open>val\<close> is the \<open>int64\<close> that the atomic operations read and write,
  \<open>prec\<close> the scale factor, a \<open>uint\<close> (64 bits), and \<open>desc\<close> the descriptor that
  \<open>prometheus.NewDesc\<close> built, which the package only hands back.
\<close>

record 'd FixedPrecisionGauge =
  val :: "64 word"
  prec :: "64 word"
  desc :: 'd

definition NewFixedPrecisionGauge :: "'d \<Rightarrow> 64 word \<Rightarrow> 'd FixedPrecisionGauge" where
  "NewFixedPrecisionGauge d p = \<lparr>val = 0, prec = uint_of_float64 (Pow10 (sint p)), desc = d\<rparr>"

definition FixedPrecisionGauge_Set :: "float64 \<Rightarrow> 'd FixedPrecisionGauge \<Rightarrow> 'd FixedPrecisionGauge" where
  "FixedPrecisionGauge_Set v fpg = fpg\<lparr>val := int64_of_float64 v * prec fpg\<rparr>"

definition FixedPrecisionGauge_add :: "64 word \<Rightarrow> 'd FixedPrecisionGauge \<Rightarrow> 'd FixedPrecisionGauge" where
  "FixedPrecisionGauge_add delta fpg = fpg\<lparr>val := val fpg + delta * prec fpg\<rparr>"

definition FixedPrecisionGauge_Inc :: "'d FixedPrecisionGauge \<Rightarrow> 'd FixedPrecisionGauge" where
  "FixedPrecisionGauge_Inc fpg = FixedPrecisionGauge_add 1 fpg"

definition FixedPrecisionGauge_Dec :: "'d FixedPrecisionGauge \<Rightarrow> 'd FixedPrecisionGauge" where
  "FixedPrecisionGauge_Dec fpg = FixedPrecisionGauge_add (- 1) fpg"

definition FixedPrecisionGauge_Add :: "float64 \<Rightarrow> 'd FixedPrecisionGauge \<Rightarrow> 'd FixedPrecisionGauge" where
  "FixedPrecisionGauge_Add delta fpg =
     fpg\<lparr>val := val fpg + int64_of_float64 (fmul delta (float64_of_uint (prec fpg)))\<rparr>"

definition FixedPrecisionGauge_Sub :: "float64 \<Rightarrow> 'd FixedPrecisionGauge \<Rightarrow> 'd FixedPrecisionGauge" where
  "FixedPrecisionGauge_Sub v fpg = FixedPrecisionGauge_Add (fmul v (float64_of_int (- 1))) fpg"

definition FixedPrecisionGauge_Value :: "'d FixedPrecisionGauge \<Rightarrow> float64" where
  "FixedPrecisionGauge_Value fpg = fdiv (float64_of_int64 (val fpg)) (float64_of_uint (prec fpg))"

definition FixedPrecisionGauge_Desc :: "'d FixedPrecisionGauge \<Rightarrow> 'd" where
  "FixedPrecisionGauge_Desc fpg = desc fpg"

text \<open>
  \<open>Write\<close> fills the metric record of the collection framework, \<open>dto.Metric\<close>: its field
  \<open>Counter\<close> gets a new \<open>dto.Counter\<close> that points to the value. The other fields of the record
  are the extension of the record scheme. The result is the error, \<open>None\<close> for \<open>nil\<close>, the
  metric and the gauge.
\<close>

record dto_Counter =
  Value :: "float64 option"

record dto_Metric =
  Counter :: "dto_Counter option"

definition FixedPrecisionGauge_Write ::
  "'m dto_Metric_scheme \<Rightarrow> 'd FixedPrecisionGauge
     \<Rightarrow> string option \<times> 'm dto_Metric_scheme \<times> 'd FixedPrecisionGauge" where
  "FixedPrecisionGauge_Write out fpg =
     (let f = fdiv (float64_of_int64 (val fpg)) (float64_of_uint (prec fpg))
      in (None, out\<lparr>Counter := Some \<lparr>Value = Some f\<rparr>\<rparr>, fpg))"

text \<open>
  \<open>SetToCurrentTime\<close>, given what \<open>time.Now().Unix()\<close> returns. \<open>Describe\<close> and \<open>Collect\<close>
  send the descriptor and the gauge on a channel of the framework and change nothing; they
  have no definition here.
\<close>

definition FixedPrecisionGauge_SetToCurrentTime ::
  "64 word \<Rightarrow> 'd FixedPrecisionGauge \<Rightarrow> 'd FixedPrecisionGauge" where
  "FixedPrecisionGauge_SetToCurrentTime now fpg = FixedPrecisionGauge_Set (float64_of_int64 now) fpg"

section \<open>FixedPrecisionCounter\<close>

text \<open>
  The counter is a struct with one embedded field, the gauge. A call either returns or
  panics with a message; the struct is there after a panic as well (the test of the package
  recovers from it), so a call gives the outcome and the struct.
\<close>

record 'd FixedPrecisionCounter =
  FixedPrecisionGauge :: "'d FixedPrecisionGauge"

datatype outcome = Returned | Panicked string

definition NewFixedPrecisionCounter :: "'d \<Rightarrow> 64 word \<Rightarrow> 'd FixedPrecisionCounter" where
  "NewFixedPrecisionCounter d p =
     \<lparr>FixedPrecisionGauge = \<lparr>val = 0, prec = uint_of_float64 (Pow10 (sint p)), desc = d\<rparr>\<rparr>"

definition FixedPrecisionCounter_Add ::
  "float64 \<Rightarrow> 'd FixedPrecisionCounter \<Rightarrow> outcome \<times> 'd FixedPrecisionCounter" where
  "FixedPrecisionCounter_Add v fpc =
     (if flt v (float64_of_int 0) then (Panicked ''counter cannot decrease in value'', fpc)
      else (Returned, fpc\<lparr>FixedPrecisionGauge := FixedPrecisionGauge_Add v (FixedPrecisionGauge fpc)\<rparr>))"

text \<open>
  Go promotes the methods of an embedded field to the struct that embeds it: the counter
  declares only \<open>Add\<close>, and a call \<open>c.Inc()\<close>, \<open>c.Dec()\<close>, \<open>c.Sub(v)\<close>, \<open>c.Set(v)\<close> or
  \<open>c.Value()\<close> on a \<open>*FixedPrecisionCounter\<close> is the call of that method on
  \<open>c.FixedPrecisionGauge\<close>.
\<close>

definition promoted ::
  "('d FixedPrecisionGauge \<Rightarrow> 'd FixedPrecisionGauge) \<Rightarrow> 'd FixedPrecisionCounter \<Rightarrow> 'd FixedPrecisionCounter" where
  "promoted method fpc = fpc\<lparr>FixedPrecisionGauge := method (FixedPrecisionGauge fpc)\<rparr>"

definition FixedPrecisionCounter_Inc :: "'d FixedPrecisionCounter \<Rightarrow> 'd FixedPrecisionCounter" where
  "FixedPrecisionCounter_Inc = promoted FixedPrecisionGauge_Inc"

definition FixedPrecisionCounter_Dec :: "'d FixedPrecisionCounter \<Rightarrow> 'd FixedPrecisionCounter" where
  "FixedPrecisionCounter_Dec = promoted FixedPrecisionGauge_Dec"

definition FixedPrecisionCounter_Sub :: "float64 \<Rightarrow> 'd FixedPrecisionCounter \<Rightarrow> 'd FixedPrecisionCounter" where
  "FixedPrecisionCounter_Sub v = promoted (FixedPrecisionGauge_Sub v)"

definition FixedPrecisionCounter_Set :: "float64 \<Rightarrow> 'd FixedPrecisionCounter \<Rightarrow> 'd FixedPrecisionCounter" where
  "FixedPrecisionCounter_Set v = promoted (FixedPrecisionGauge_Set v)"

definition FixedPrecisionCounter_Value :: "'d FixedPrecisionCounter \<Rightarrow> float64" where
  "FixedPrecisionCounter_Value fpc = FixedPrecisionGauge_Value (FixedPrecisionGauge fpc)"

text \<open>
  The two methods of \<open>prometheus.Counter\<close> that change the metric, as calls on a counter; a
  call of \<open>Add\<close> that panics leaves the counter as it was. \<open>observed_values\<close> is what \<open>Value()\<close>
  returns before the first call and after each call of a sequence.
\<close>

datatype counter_call = Call_Inc | Call_Add float64

fun apply_call :: "counter_call \<Rightarrow> 'd FixedPrecisionCounter \<Rightarrow> 'd FixedPrecisionCounter" where
  "apply_call Call_Inc fpc = FixedPrecisionCounter_Inc fpc"
| "apply_call (Call_Add v) fpc = snd (FixedPrecisionCounter_Add v fpc)"

fun observed_values :: "counter_call list \<Rightarrow> 'd FixedPrecisionCounter \<Rightarrow> float64 list" where
  "observed_values [] fpc = [FixedPrecisionCounter_Value fpc]"
| "observed_values (c # cs) fpc = FixedPrecisionCounter_Value fpc # observed_values cs (apply_call c fpc)"

text \<open>
  A call stays within \<open>int64\<close> when the number it adds and the sum, taken in the integers,
  are below \<open>2^63\<close>: for \<open>Inc\<close> the scale factor, for \<open>Add\<close> the truncated product, which
  has to be a number. A call of \<open>Add\<close> that panics adds nothing.
\<close>

fun within_int64 :: "counter_call \<Rightarrow> 'd FixedPrecisionCounter \<Rightarrow> bool" where
  "within_int64 Call_Inc fpc =
     (sint (val (FixedPrecisionGauge fpc)) + uint (prec (FixedPrecisionGauge fpc)) < 2 ^ 63)"
| "within_int64 (Call_Add v) fpc =
     (flt v (float64_of_int 0) \<or>
      (case trunc_zero (fmul v (float64_of_uint (prec (FixedPrecisionGauge fpc)))) of
         None \<Rightarrow> False
       | Some t \<Rightarrow> t < 2 ^ 63 \<and> sint (val (FixedPrecisionGauge fpc)) + t < 2 ^ 63))"

fun all_within_int64 :: "counter_call list \<Rightarrow> 'd FixedPrecisionCounter \<Rightarrow> bool" where
  "all_within_int64 [] fpc = True"
| "all_within_int64 (c # cs) fpc = (within_int64 c fpc \<and> all_within_int64 cs (apply_call c fpc))"

fun float64_call :: "counter_call \<Rightarrow> bool" where
  "float64_call Call_Inc = True"
| "float64_call (Call_Add v) = is_float64 v"

section \<open>Concurrent callers\<close>

text \<open>
  Several goroutines call \<open>Inc\<close> on one gauge. A call of \<open>Inc\<close> is one \<open>atomic.AddInt64\<close> on
  \<open>val\<close> (\<open>prec\<close> is not written after the construction), so an execution is an interleaving
  of the calls of the threads, one call a step. A configuration is the number of calls that
  each thread has still to make, and the gauge; a step is the next call of any thread that
  has one.
\<close>

inductive Inc_step ::
  "nat list \<times> 'd FixedPrecisionGauge \<Rightarrow> nat list \<times> 'd FixedPrecisionGauge \<Rightarrow> bool" where
  thread_Inc: "i < length pending \<Longrightarrow> pending ! i = Suc k
     \<Longrightarrow> Inc_step (pending, fpg) (pending[i := k], FixedPrecisionGauge_Inc fpg)"

text \<open>
  Unary minus on a float64. The source does not use it: \<open>Sub\<close> multiplies by \<open>-1\<close>. It is what
  the specification compares \<open>Sub\<close> with.
\<close>

fun fneg :: "float64 \<Rightarrow> float64" where
  "fneg (Finite s m e) = Finite (\<not> s) m e"
| "fneg (Infinity s) = Infinity (\<not> s)"
| "fneg NaN = NaN"

section \<open>Rounding as a function of the real number\<close>

text \<open>
  What IEEE 754 asks of the rounding, for the proofs only: \<open>nearest_even\<close> is the integer
  nearest to a real number, the even one of two that are equally near; \<open>exponent_of x\<close> is
  the exponent of the float64 grid around \<open>x > 0\<close>; \<open>nearest_units x\<close> is the nearest point
  of that grid in units of \<open>2^-1074\<close>, at most \<open>2^2098\<close>, the place of the infinity;
  \<open>round_units\<close> extends it to zero and the negative numbers.
\<close>

definition nearest_even :: "real \<Rightarrow> int" where
  "nearest_even y =
     (let f = \<lfloor>y\<rfloor>
      in if y - of_int f < 1 / 2 then f
         else if 1 / 2 < y - of_int f then f + 1
         else if even f then f else f + 1)"

definition exponent_of :: "real \<Rightarrow> int" where
  "exponent_of x = max (\<lfloor>log 2 x\<rfloor> - 52) (- 1074)"

definition nearest_units :: "real \<Rightarrow> int" where
  "nearest_units x =
     min (nearest_even (x / 2 powr real_of_int (exponent_of x)) * 2 ^ nat (exponent_of x + 1074)) (2 ^ 2098)"

definition round_units :: "real \<Rightarrow> int" where
  "round_units x = (if 0 < x then nearest_units x else if x = 0 then 0 else - nearest_units (- x))"

definition sign_of :: "bool \<Rightarrow> int" where
  "sign_of s = (if s then - 1 else 1)"

section \<open>Evaluation and the arithmetic of rounding\<close>

lemma bit_length_pos: "0 < n \<Longrightarrow> bit_length n = bit_length (n div 2) + 1"
  by (subst bit_length.simps) simp

lemma bit_length_nonpos: "n \<le> 0 \<Longrightarrow> bit_length n = 0"
  by (subst bit_length.simps) simp

lemmas float64_eval = float64_of_int_def float64_const_def round_ratio_def round_even_def
  bit_length_pos bit_length_nonpos Let_def int64_of_float64_def uint_of_float64_def
  float64_of_int64_def float64_of_uint_def Pow10_def

lemmas gauge_defs = FixedPrecisionGauge_Set_def FixedPrecisionGauge_add_def
  FixedPrecisionGauge_Inc_def FixedPrecisionGauge_Dec_def FixedPrecisionGauge_Add_def
  FixedPrecisionGauge_Sub_def FixedPrecisionGauge_Value_def FixedPrecisionGauge_Write_def

lemma bit_length_bitlen: "bit_length n = bitlen n"
proof (induction n rule: bit_length.induct)
  case (1 n)
  then show ?case
    by (subst bit_length.simps, subst compute_bitlen) auto
qed

lemma bit_length_eqI: "2 ^ k \<le> n \<Longrightarrow> n < 2 ^ (Suc k) \<Longrightarrow> bit_length n = int k + 1"
proof -
  assume a: "2 ^ k \<le> n" "n < 2 ^ (Suc k)"
  have s: "nat (int (Suc k)) = Suc k" "nat (int (Suc k)) - 1 = k"
    by simp_all
  have "bitlen n \<le> int (Suc k)"
    unfolding bitlen_le_iff_power s using a by simp
  moreover have "int (Suc k) \<le> bitlen n"
    unfolding bitlen_ge_iff_power s using a by simp
  ultimately show ?thesis by (simp add: bit_length_bitlen)
qed

lemma bit_length_le: "0 \<le> n \<Longrightarrow> n < 2 ^ k \<Longrightarrow> bit_length n \<le> int k"
  by (simp add: bit_length_bitlen bitlen_le_iff_power)

lemma bit_length_shift: "0 < m \<Longrightarrow> bit_length (m * 2 ^ k) = bit_length m + int k"
  by (simp add: bit_length_bitlen)

text \<open>A number that has a float64 of its own is rounded to it.\<close>

lemma round_even_exact:
  assumes M: "M = m * 2 ^ k" and m: "0 < m" "m < 2 ^ 53" and k: "0 < k"
    and sh: "max (bit_length M - 53) (- 1074 - E) = int k" and e: "E + int k \<le> 971"
  shows "round_even s M E = Finite s m (E + int k)"
proof -
  have "M \<noteq> 0" using M m by simp
  moreover have "M div 2 ^ k = m" "M mod 2 ^ k = 0" using M by simp_all
  moreover have "(0::int) < 2 ^ nat (int k - 1)" by simp
  ultimately show ?thesis
    using m k e unfolding round_even_def sh Let_def by (simp del: power_strict_increasing_iff)
qed

lemma round_even_canonical:
  assumes "is_float64 (Finite s m e)"
  shows "round_even t (m * 2 ^ 52) (e - 52) = Finite t m e"
proof (cases "m = 0")
  case True
  with assms show ?thesis by (simp add: round_even_def)
next
  case False
  with assms have m: "0 < m" "m < 2 ^ 53" by auto
  have bl: "bit_length (m * 2 ^ 52) = bit_length m + int 52"
    using m by (intro bit_length_shift)
  have sh: "max (bit_length (m * 2 ^ 52) - 53) (- 1074 - (e - 52)) = int 52"
  proof (cases "2 ^ 52 \<le> m")
    case True
    then have "bit_length m = 53" using m bit_length_eqI [of 52 m] by simp
    moreover have "- 1074 \<le> e" using assms by auto
    ultimately show ?thesis unfolding bl by simp
  next
    case False
    then have "bit_length m \<le> 52" using m bit_length_le [of m 52] by simp
    moreover have "e = - 1074" using assms False by auto
    ultimately show ?thesis unfolding bl by simp
  qed
  have e: "e - 52 + int 52 \<le> 971" using assms by auto
  show ?thesis
    using round_even_exact [OF refl m _ sh e, of t] by simp
qed

lemma float64_minus_one: "float64_of_int (- 1) = Finite True (2 ^ 52) (- 52)"
  by (simp add: float64_eval)

lemma float64_zero: "float64_of_int 0 = Finite False 0 (- 1074)"
  by (simp add: float64_eval)

lemma fmul_minus_one: "is_float64 v \<Longrightarrow> fmul v (float64_of_int (- 1)) = fneg v"
proof (cases v)
  case (Finite s m e)
  assume "is_float64 v"
  then show ?thesis
    unfolding Finite float64_minus_one using round_even_canonical [of s m e "\<not> s"] by simp
qed (simp_all add: float64_minus_one)

lemma New_0: "NewFixedPrecisionGauge d 0 = \<lparr>val = 0, prec = 1, desc = d\<rparr>"
  by (simp add: NewFixedPrecisionGauge_def float64_eval)

lemma New_3: "NewFixedPrecisionGauge d 3 = \<lparr>val = 0, prec = 1000, desc = d\<rparr>"
  by (simp add: NewFixedPrecisionGauge_def float64_eval)

lemma NewCounter_3:
  "NewFixedPrecisionCounter d 3 = \<lparr>FixedPrecisionGauge = \<lparr>val = 0, prec = 1000, desc = d\<rparr>\<rparr>"
  by (simp add: NewFixedPrecisionCounter_def float64_eval)

lemma const_one: "float64_const 1 1 = Finite False 4503599627370496 (- 52)"
  by (simp add: float64_eval)

lemma const_nines: "float64_const 9999999999999999999 (10 ^ 19) = Finite False 4503599627370496 (- 52)"
  by (simp add: float64_eval)

lemma const_three: "float64_const 3 1 = Finite False 6755399441055744 (- 51)"
  by (simp add: float64_eval)

lemma const_two_nines:
  "float64_const 29999999999999999999 (10 ^ 19) = Finite False 6755399441055744 (- 51)"
  by (simp add: float64_eval)

lemma Inc_0: "FixedPrecisionGauge_Inc \<lparr>val = 0, prec = 1, desc = d\<rparr> = \<lparr>val = 1, prec = 1, desc = d\<rparr>"
  by (simp add: gauge_defs)

lemma Add_1: "FixedPrecisionGauge_Add (Finite False 4503599627370496 (- 52)) \<lparr>val = 1, prec = 1, desc = d\<rparr>
   = \<lparr>val = 2, prec = 1, desc = d\<rparr>"
  by (simp add: gauge_defs float64_eval)

lemma Sub_3: "FixedPrecisionGauge_Sub (Finite False 6755399441055744 (- 51)) \<lparr>val = 2, prec = 1, desc = d\<rparr>
   = \<lparr>val = - 1, prec = 1, desc = d\<rparr>"
  by (simp add: gauge_defs float64_eval)

lemma Value_2: "feq (FixedPrecisionGauge_Value \<lparr>val = 2, prec = 1, desc = d\<rparr>) (float64_const 2 1)"
  by (simp add: gauge_defs feq_def float64_eval)

lemma Value_m1: "feq (FixedPrecisionGauge_Value \<lparr>val = - 1, prec = 1, desc = d\<rparr>) (float64_const (- 1) 1)"
  by (simp add: gauge_defs feq_def float64_eval)

lemma word_le_18_cases:
  "(p :: 64 word) \<le> 18 \<Longrightarrow> p \<in> {0, 1, 2, 3, 4, 5, 6, 7, 8, 9, 10, 11, 12, 13, 14, 15, 16, 17, 18}"
proof -
  assume "p \<le> 18"
  then have "unat p \<le> 18" by (simp add: word_le_nat_alt)
  then have "unat p \<in> {0, 1, 2, 3, 4, 5, 6, 7, 8, 9, 10, 11, 12, 13, 14, 15, 16, 17, 18}"
    by (auto, arith)
  then have "word_of_nat (unat p) \<in> (word_of_nat ` {0, 1, 2, 3, 4, 5, 6, 7, 8, 9, 10, 11, 12, 13, 14, 15, 16, 17, 18} :: 64 word set)"
    by (rule imageI)
  then show ?thesis by simp
qed

text \<open>The scale factors of the precisions 0 to 19.\<close>

lemma prec_New:
  "prec (NewFixedPrecisionGauge d 0) = 1" "prec (NewFixedPrecisionGauge d 1) = 10"
  "prec (NewFixedPrecisionGauge d 2) = 100" "prec (NewFixedPrecisionGauge d 3) = 1000"
  "prec (NewFixedPrecisionGauge d 4) = 10000" "prec (NewFixedPrecisionGauge d 5) = 100000"
  "prec (NewFixedPrecisionGauge d 6) = 1000000" "prec (NewFixedPrecisionGauge d 7) = 10000000"
  "prec (NewFixedPrecisionGauge d 8) = 100000000" "prec (NewFixedPrecisionGauge d 9) = 1000000000"
  "prec (NewFixedPrecisionGauge d 10) = 10000000000"
  "prec (NewFixedPrecisionGauge d 11) = 100000000000"
  "prec (NewFixedPrecisionGauge d 12) = 1000000000000"
  "prec (NewFixedPrecisionGauge d 13) = 10000000000000"
  "prec (NewFixedPrecisionGauge d 14) = 100000000000000"
  "prec (NewFixedPrecisionGauge d 15) = 1000000000000000"
  "prec (NewFixedPrecisionGauge d 16) = 10000000000000000"
  "prec (NewFixedPrecisionGauge d 17) = 100000000000000000"
  "prec (NewFixedPrecisionGauge d 18) = 1000000000000000000"
  "prec (NewFixedPrecisionGauge d 19) = 10000000000000000000"
  by (simp_all add: NewFixedPrecisionGauge_def float64_eval)

text \<open>
  For these scale factors except the last, the float64 product \<open>1.0 * float64(prec)\<close> is the
  scale factor itself, and it converts back to it.
\<close>

lemma unit_delta:
  "s \<in> {1, 10, 100, 1000, 10000, 100000, 1000000, 10000000, 100000000, 1000000000,
      10000000000, 100000000000, 1000000000000, 10000000000000, 100000000000000,
      1000000000000000, 10000000000000000, 100000000000000000, 1000000000000000000}
   \<Longrightarrow> int64_of_float64 (fmul (float64_const 1 1) (float64_of_uint s)) = s
     \<and> int64_of_float64 (fmul (float64_const (- 1) 1) (float64_of_uint s)) = - s"
  by (elim insertE emptyE; simp add: float64_eval)

lemma prec_New_le_18:
  "p \<le> 18 \<Longrightarrow> prec (NewFixedPrecisionGauge d p)
     \<in> {1, 10, 100, 1000, 10000, 100000, 1000000, 10000000, 100000000, 1000000000,
      10000000000, 100000000000, 1000000000000, 10000000000000, 100000000000000,
      1000000000000000, 10000000000000000, 100000000000000000, 1000000000000000000}"
  by (drule word_le_18_cases, elim insertE emptyE; simp only: prec_New; simp)

section \<open>The rounding is the nearest float64, and it is monotone\<close>

lemma nearest_even_of_int: "nearest_even (of_int n) = n"
  by (simp add: nearest_even_def)

lemma nearest_even_floor: "\<lfloor>y\<rfloor> \<le> nearest_even y" "nearest_even y \<le> \<lfloor>y\<rfloor> + 1"
  by (simp_all add: nearest_even_def Let_def)

lemma nearest_even_mono: "y \<le> z \<Longrightarrow> nearest_even y \<le> nearest_even z"
proof -
  assume yz: "y \<le> z"
  then have "\<lfloor>y\<rfloor> \<le> \<lfloor>z\<rfloor>" by (rule floor_mono)
  then consider "\<lfloor>y\<rfloor> < \<lfloor>z\<rfloor>" | "\<lfloor>y\<rfloor> = \<lfloor>z\<rfloor>" by linarith
  then show ?thesis
  proof cases
    case 1
    then have "nearest_even y \<le> \<lfloor>z\<rfloor>" using nearest_even_floor(2) [of y] by linarith
    then show ?thesis using nearest_even_floor(1) [of z] by linarith
  next
    case 2
    then show ?thesis using yz by (auto simp: nearest_even_def Let_def)
  qed
qed

lemma exponent_of_mono: "0 < x \<Longrightarrow> x \<le> y \<Longrightarrow> exponent_of x \<le> exponent_of y"
proof -
  assume "0 < x" "x \<le> y"
  then have "log 2 x \<le> log 2 y" by simp
  then have "\<lfloor>log 2 x\<rfloor> \<le> \<lfloor>log 2 y\<rfloor>" by (rule floor_mono)
  then show ?thesis by (simp add: exponent_of_def)
qed

lemma exponent_of_ge: "- 1074 \<le> exponent_of x"
  by (simp add: exponent_of_def)

lemma floor_log2_bounds:
  assumes "0 < x"
  shows "2 powr real_of_int \<lfloor>log 2 x\<rfloor> \<le> x" "x < 2 powr real_of_int (\<lfloor>log 2 x\<rfloor> + 1)"
  using floor_log_eq_powr_iff [of x 2 "\<lfloor>log 2 x\<rfloor>"] assms by simp_all

lemma exponent_of_upper:
  assumes "0 < x"
  shows "x < 2 powr real_of_int (exponent_of x + 53)"
proof -
  have "\<lfloor>log 2 x\<rfloor> + 1 \<le> exponent_of x + 53" by (simp add: exponent_of_def)
  then have "2 powr real_of_int (\<lfloor>log 2 x\<rfloor> + 1) \<le> 2 powr real_of_int (exponent_of x + 53)"
    by (intro powr_mono) simp_all
  with floor_log2_bounds(2) [OF assms] show ?thesis by linarith
qed

lemma exponent_of_lower:
  assumes "0 < x" "- 1074 < exponent_of x"
  shows "2 powr real_of_int (exponent_of x + 52) \<le> x"
proof -
  have "exponent_of x + 52 = \<lfloor>log 2 x\<rfloor>" using assms(2) by (simp add: exponent_of_def max_def split: if_splits)
  with floor_log2_bounds(1) [OF assms(1)] show ?thesis by simp
qed

lemma powr_int_split: "2 powr real_of_int (a + b) = 2 powr real_of_int a * 2 powr real_of_int b"
  by (simp add: powr_add)

lemma powr_nat: "2 powr real_of_int (int n) = 2 ^ n"
  by (simp add: powr_realpow)

lemma scaled_upper:
  assumes "0 < x"
  shows "x / 2 powr real_of_int (exponent_of x) < 2 ^ 53"
proof -
  have "x < 2 powr real_of_int (exponent_of x) * 2 powr real_of_int (int 53)"
    using exponent_of_upper [OF assms] by (simp only: powr_int_split of_nat_numeral)
  then show ?thesis unfolding powr_nat by (simp add: field_simps)
qed

lemma scaled_lower:
  assumes "0 < x" "- 1074 < exponent_of x"
  shows "2 ^ 52 \<le> x / 2 powr real_of_int (exponent_of x)"
proof -
  have "2 powr real_of_int (exponent_of x) * 2 powr real_of_int (int 52) \<le> x"
    using exponent_of_lower [OF assms] by (simp only: powr_int_split of_nat_numeral)
  then show ?thesis unfolding powr_nat by (simp add: field_simps)
qed

lemma nearest_even_numeral: "nearest_even (numeral k) = numeral k"
  using nearest_even_of_int [of "numeral k"] by simp

lemma nearest_even_zero: "nearest_even 0 = 0"
  using nearest_even_of_int [of 0] by simp

lemma nearest_even_upper: "y \<le> 2 ^ 53 \<Longrightarrow> nearest_even y \<le> 2 ^ 53"
  using nearest_even_mono [of y "2 ^ 53"] by (simp add: nearest_even_numeral)

lemma nearest_even_lower: "2 ^ 52 \<le> y \<Longrightarrow> 2 ^ 52 \<le> nearest_even y"
  using nearest_even_mono [of "2 ^ 52" y] by (simp add: nearest_even_numeral)

lemma nearest_even_nonneg: "0 \<le> y \<Longrightarrow> 0 \<le> nearest_even y"
  using nearest_even_mono [of 0 y] by (simp add: nearest_even_zero)

lemma nearest_units_mono:
  assumes "0 < x" "x \<le> y"
  shows "nearest_units x \<le> nearest_units y"
proof -
  have y: "0 < y" using assms by linarith
  let ?a = "nearest_even (x / 2 powr real_of_int (exponent_of x))"
  let ?b = "nearest_even (y / 2 powr real_of_int (exponent_of y))"
  have "?a * 2 ^ nat (exponent_of x + 1074) \<le> ?b * 2 ^ nat (exponent_of y + 1074)"
  proof (cases "exponent_of x = exponent_of y")
    case True
    have "x / 2 powr real_of_int (exponent_of y) \<le> y / 2 powr real_of_int (exponent_of y)"
      using assms by (simp add: divide_right_mono)
    then have "?a \<le> ?b" unfolding True by (rule nearest_even_mono)
    then show ?thesis unfolding True by simp
  next
    case False
    then have lt: "exponent_of x < exponent_of y"
      using exponent_of_mono [OF assms] by linarith
    then have "- 1074 < exponent_of y" using exponent_of_ge [of x] by linarith
    then have b: "2 ^ 52 \<le> ?b" using scaled_lower [OF y] nearest_even_lower by simp
    have a: "?a \<le> 2 ^ 53" using scaled_upper [OF assms(1)] nearest_even_upper by simp
    have n: "nat (exponent_of x + 1074) + 1 \<le> nat (exponent_of y + 1074)"
      using lt exponent_of_ge [of x] by linarith
    have "?a * 2 ^ nat (exponent_of x + 1074) \<le> 2 ^ 53 * 2 ^ nat (exponent_of x + 1074)"
      using a by (intro mult_right_mono) simp_all
    also have "\<dots> = (2::int) ^ 52 * 2 ^ (nat (exponent_of x + 1074) + 1)"
      by simp
    also have "\<dots> \<le> 2 ^ 52 * 2 ^ nat (exponent_of y + 1074)"
      using n by (intro mult_left_mono power_increasing) simp_all
    also have "\<dots> \<le> ?b * 2 ^ nat (exponent_of y + 1074)"
      using b by (intro mult_right_mono) simp_all
    finally show ?thesis .
  qed
  then show ?thesis by (simp add: nearest_units_def)
qed

lemma nearest_units_nonneg: "0 < x \<Longrightarrow> 0 \<le> nearest_units x"
  by (simp add: nearest_units_def nearest_even_nonneg)

lemma round_units_mono: "x \<le> y \<Longrightarrow> round_units x \<le> round_units y"
  using nearest_units_mono [of x y] nearest_units_mono [of "- y" "- x"]
    nearest_units_nonneg [of y] nearest_units_nonneg [of "- x"]
  by (auto simp: round_units_def)

lemma nearest_even_div:
  assumes "0 < k"
  shows "nearest_even (real_of_int M / 2 ^ k)
    = (if 2 ^ (k - 1) < M mod 2 ^ k \<or> (M mod 2 ^ k = 2 ^ (k - 1) \<and> odd (M div 2 ^ k))
       then M div 2 ^ k + 1 else M div 2 ^ k)"
proof -
  define D :: int where "D = 2 ^ k"
  define h :: int where "h = 2 ^ (k - 1)"
  have D: "D = 2 * h" "0 < D" using assms by (simp_all add: D_def h_def flip: power_Suc)
  have fl: "\<lfloor>real_of_int M / real_of_int D\<rfloor> = M div D"
    by (rule floor_divide_of_int_eq)
  have fr: "real_of_int M / real_of_int D - real_of_int (M div D) = real_of_int (M mod D) / real_of_int D"
    using of_int_div_aux [of M D, where ?'a = real] by simp
  have lt: "real_of_int (M mod D) / real_of_int D < 1 / 2 \<longleftrightarrow> M mod D < h"
    using D by (simp add: field_simps)
  have gt: "1 / 2 < real_of_int (M mod D) / real_of_int D \<longleftrightarrow> h < M mod D"
    using D by (simp add: field_simps)
  have "nearest_even (real_of_int M / real_of_int D)
    = (if h < M mod D \<or> (M mod D = h \<and> odd (M div D)) then M div D + 1 else M div D)"
    unfolding nearest_even_def Let_def fl fr lt gt by auto
  then show ?thesis by (simp add: D_def h_def)
qed

lemma bit_length_bounds:
  assumes "0 < M"
  shows "2 powr real_of_int (bit_length M - 1) \<le> real_of_int M"
    and "real_of_int M < 2 powr real_of_int (bit_length M)"
proof -
  have "\<lfloor>log 2 (real_of_int M)\<rfloor> = bit_length M - 1"
    using assms by (simp add: bit_length_bitlen bitlen_alt_def)
  then show "2 powr real_of_int (bit_length M - 1) \<le> real_of_int M"
    and "real_of_int M < 2 powr real_of_int (bit_length M)"
    using floor_log2_bounds [of "real_of_int M"] assms by simp_all
qed

lemma pow2_le_scaled: "2 ^ a \<le> m \<Longrightarrow> c \<le> a + n \<Longrightarrow> (2::int) ^ c \<le> m * 2 ^ n"
proof -
  assume a: "2 ^ a \<le> m" "c \<le> a + n"
  have "(2::int) ^ c \<le> 2 ^ (a + n)" using a(2) by (intro power_increasing) simp_all
  also have "\<dots> = 2 ^ a * 2 ^ n" by (simp add: power_add)
  also have "\<dots> \<le> m * 2 ^ n" using a(1) by (intro mult_right_mono) simp_all
  finally show ?thesis .
qed

lemma scaled_less_pow2: "m < 2 ^ a \<Longrightarrow> a + n \<le> c \<Longrightarrow> m * 2 ^ n < (2::int) ^ c"
proof -
  assume a: "m < 2 ^ a" "a + n \<le> c"
  have "m * 2 ^ n < 2 ^ a * 2 ^ n" using a(1) by (intro mult_strict_right_mono) simp_all
  also have "\<dots> = 2 ^ (a + n)" by (simp add: power_add)
  also have "\<dots> \<le> 2 ^ c" using a(2) by (intro power_increasing) simp_all
  finally show ?thesis .
qed

lemma round_even_mantissa:
  "(if sh \<le> 0 then M * 2 ^ nat (- sh)
    else if 2 ^ (nat sh - 1) < M mod 2 ^ nat sh \<or> (M mod 2 ^ nat sh = 2 ^ (nat sh - 1) \<and> odd (M div 2 ^ nat sh))
         then M div 2 ^ nat sh + 1 else M div 2 ^ nat sh)
   = nearest_even (real_of_int M * 2 powr real_of_int (- sh))"
proof (cases "sh \<le> 0")
  case True
  then have "2 powr real_of_int (- sh) = 2 ^ nat (- sh)"
    using powr_real_of_int [of 2 "- sh"] by simp
  then have "real_of_int M * 2 powr real_of_int (- sh) = real_of_int (M * 2 ^ nat (- sh))"
    by simp
  then show ?thesis using True by (simp only: nearest_even_of_int if_True)
next
  case False
  then have "2 powr real_of_int (- sh) = inverse (2 ^ nat sh)"
    using powr_real_of_int [of 2 "- sh"] by simp
  then have "real_of_int M * 2 powr real_of_int (- sh) = real_of_int M / 2 ^ nat sh"
    by (simp add: field_simps)
  moreover have "0 < nat sh" using False by simp
  ultimately show ?thesis using False nearest_even_div [of "nat sh" M] by simp
qed

lemma round_even_units:
  fixes M E :: int
  assumes M: "0 < M"
  defines "sh \<equiv> max (bit_length M - 53) (- 1074 - E)"
  defines "y \<equiv> real_of_int M * 2 powr real_of_int (- sh)"
  shows "round_even s M E \<noteq> NaN"
    and "units (round_even s M E)
      = sign_of s * min (nearest_even y * 2 ^ nat (E + sh + 1074)) (2 ^ 2098)"
    and "round_even s M E = Infinity s
      \<or> (\<exists>m e. round_even s M E = Finite s m e \<and> 0 \<le> m \<and> - 1074 \<le> e \<and> is_float64 (Finite s m e))"
proof -
  define m where "m = nearest_even y"
  define e where "e = E + sh"
  define n where "n = nat (e + 1074)"
  have e: "- 1074 \<le> e" by (simp add: e_def sh_def)
  have re: "round_even s M E =
      (if m = 2 ^ 53 then (if 971 < e + 1 then Infinity s else Finite s (2 ^ 52) (e + 1))
       else if 971 < e then Infinity s else Finite s m e)"
  proof -
    have "nat (sh - 1) = nat sh - 1" by simp
    then have "(if (if sh \<le> 0 then 1 else 2 ^ nat (sh - 1)) < (if sh \<le> 0 then 0 else M mod 2 ^ nat sh)
            \<or> ((if sh \<le> 0 then 0 else M mod 2 ^ nat sh) = (if sh \<le> 0 then 1 else 2 ^ nat (sh - 1))
               \<and> odd (if sh \<le> 0 then M * 2 ^ nat (- sh) else M div 2 ^ nat sh))
         then (if sh \<le> 0 then M * 2 ^ nat (- sh) else M div 2 ^ nat sh) + 1
         else (if sh \<le> 0 then M * 2 ^ nat (- sh) else M div 2 ^ nat sh)) = m"
      unfolding m_def y_def round_even_mantissa [symmetric] by (cases "sh \<le> 0") simp_all
    moreover have "M \<noteq> 0" using M by simp
    ultimately show ?thesis
      unfolding round_even_def Let_def sh_def [symmetric] e_def [symmetric] by (simp only: if_False)
  qed
  show "round_even s M E \<noteq> NaN" unfolding re by simp
  have bl: "bit_length M - 53 \<le> sh" by (simp add: sh_def)
  have "real_of_int M < 2 powr real_of_int (bit_length M)"
    using bit_length_bounds(2) [OF M] .
  also have "\<dots> \<le> 2 powr real_of_int (sh + 53)"
    using bl by (intro powr_mono) simp_all
  finally have "y < 2 powr real_of_int (sh + 53) * 2 powr real_of_int (- sh)"
    unfolding y_def by (intro mult_strict_right_mono) simp_all
  also have "\<dots> = 2 powr real_of_int (int 53)"
    by (simp flip: powr_add)
  finally have "y < 2 ^ 53" unfolding powr_nat by simp
  then have m_le: "m \<le> 2 ^ 53" unfolding m_def using nearest_even_upper by simp
  have m_ge: "2 ^ 52 \<le> m" if "- 1074 < e"
  proof -
    from that have "sh = bit_length M - 53" by (simp add: sh_def e_def max_def split: if_splits)
    then have "2 powr real_of_int (sh + 52) \<le> real_of_int M"
      using bit_length_bounds(1) [OF M] by simp
    then have "2 powr real_of_int (sh + 52) * 2 powr real_of_int (- sh) \<le> y"
      unfolding y_def by (intro mult_right_mono) simp_all
    moreover have "2 powr real_of_int (sh + 52) * 2 powr real_of_int (- sh) = 2 powr real_of_int (int 52)"
      by (simp flip: powr_add)
    ultimately have "2 ^ 52 \<le> y" unfolding powr_nat by simp
    then show ?thesis unfolding m_def by (rule nearest_even_lower)
  qed
  have goal: "units (round_even s M E) = sign_of s * min (m * 2 ^ n) (2 ^ 2098)"
  proof (cases "m = 2 ^ 53")
    case True
    show ?thesis
    proof (cases "971 < e + 1")
      case big: True
      then have "2045 \<le> n" by (simp add: n_def)
      then have "(2::int) ^ 2098 \<le> m * 2 ^ n"
        using True by (intro pow2_le_scaled [of 53]) simp_all
      then have "min (m * 2 ^ n) (2 ^ 2098) = 2 ^ 2098" by (simp only: min_def) simp
      then show ?thesis using True big unfolding re by (simp add: sign_of_def)
    next
      case small: False
      then have "n \<le> 2044" by (simp add: n_def)
      then have "m * 2 ^ n < (2::int) ^ 2098"
        using True by (intro scaled_less_pow2 [of _ 54]) simp_all
      then have "min (m * 2 ^ n) (2 ^ 2098) = m * 2 ^ n" by (simp only: min_def) simp
      moreover have "nat (e + 1 + 1074) = Suc n" using e by (simp add: n_def)
      ultimately show ?thesis using True small unfolding re by (simp add: sign_of_def)
    qed
  next
    case False
    show ?thesis
    proof (cases "971 < e")
      case big: True
      then have "2046 \<le> n" by (simp add: n_def)
      moreover have "2 ^ 52 \<le> m" using big by (intro m_ge) simp
      ultimately have "(2::int) ^ 2098 \<le> m * 2 ^ n"
        by (intro pow2_le_scaled [of 52]) simp_all
      then have "min (m * 2 ^ n) (2 ^ 2098) = 2 ^ 2098" by (simp only: min_def) simp
      then show ?thesis using False big unfolding re by (simp add: sign_of_def)
    next
      case small: False
      then have "n \<le> 2045" by (simp add: n_def)
      moreover have "m < 2 ^ 53" using False m_le by simp
      ultimately have "m * 2 ^ n < (2::int) ^ 2098"
        by (intro scaled_less_pow2 [of _ 53]) simp_all
      then have "min (m * 2 ^ n) (2 ^ 2098) = m * 2 ^ n" by (simp only: min_def) simp
      then show ?thesis using False small unfolding re by (simp add: sign_of_def n_def)
    qed
  qed
  then show "units (round_even s M E)
      = sign_of s * min (nearest_even y * 2 ^ nat (E + sh + 1074)) (2 ^ 2098)"
    by (simp add: m_def n_def e_def)
  have "0 \<le> y" using M by (simp add: y_def)
  then have m0: "0 \<le> m" unfolding m_def by (rule nearest_even_nonneg)
  show "round_even s M E = Infinity s
      \<or> (\<exists>m e. round_even s M E = Finite s m e \<and> 0 \<le> m \<and> - 1074 \<le> e \<and> is_float64 (Finite s m e))"
  proof (cases "m = 2 ^ 53")
    case True
    then show ?thesis using e unfolding re by simp
  next
    case False
    then have "m < 2 ^ 53" using m_le by simp
    moreover have "2 ^ 52 \<le> m" if "e \<noteq> - 1074" using that e m_ge by simp
    ultimately show ?thesis using False e m0 unfolding re by auto
  qed
qed

lemma exponent_of_scaled:
  fixes M E :: int
  assumes M: "0 < M"
  shows "exponent_of (real_of_int M * 2 powr real_of_int E) = E + max (bit_length M - 53) (- 1074 - E)"
proof -
  have "2 powr real_of_int (bit_length M - 1) * 2 powr real_of_int E \<le> real_of_int M * 2 powr real_of_int E"
    using bit_length_bounds(1) [OF M] by (intro mult_right_mono) simp_all
  moreover have "real_of_int M * 2 powr real_of_int E < 2 powr real_of_int (bit_length M) * 2 powr real_of_int E"
    using bit_length_bounds(2) [OF M] by (intro mult_strict_right_mono) simp_all
  ultimately have "2 powr real_of_int (bit_length M - 1 + E) \<le> real_of_int M * 2 powr real_of_int E"
    and "real_of_int M * 2 powr real_of_int E < 2 powr real_of_int (bit_length M - 1 + E + 1)"
    by (simp_all add: powr_add powr_diff)
  then have "\<lfloor>log 2 (real_of_int M * 2 powr real_of_int E)\<rfloor> = bit_length M - 1 + E"
    using M by (subst floor_log_eq_powr_iff) simp_all
  then show ?thesis by (simp add: exponent_of_def)
qed

lemma round_even_nearest:
  fixes M E :: int
  assumes M: "0 < M"
  shows "round_even s M E \<noteq> NaN"
    and "units (round_even s M E) = sign_of s * nearest_units (real_of_int M * 2 powr real_of_int E)"
proof -
  define sh where "sh = max (bit_length M - 53) (- 1074 - E)"
  have ex: "exponent_of (real_of_int M * 2 powr real_of_int E) = E + sh"
    unfolding sh_def by (rule exponent_of_scaled [OF M])
  have "real_of_int M * 2 powr real_of_int E / 2 powr real_of_int (E + sh)
      = real_of_int M * 2 powr real_of_int (- sh)"
    by (simp add: powr_add powr_minus field_simps)
  then have "nearest_units (real_of_int M * 2 powr real_of_int E)
      = min (nearest_even (real_of_int M * 2 powr real_of_int (- sh)) * 2 ^ nat (E + sh + 1074)) (2 ^ 2098)"
    unfolding nearest_units_def ex by simp
  then show "units (round_even s M E) = sign_of s * nearest_units (real_of_int M * 2 powr real_of_int E)"
    using round_even_units(2) [OF M, of s E] unfolding sh_def by simp
  show "round_even s M E \<noteq> NaN" by (rule round_even_units(1) [OF M])
qed

lemma nearest_even_sticky:
  fixes M :: int and x :: real
  assumes k: "2 \<le> k" and M: "odd M" and x: "real_of_int M - 1 < x" "x < real_of_int M + 1"
  shows "nearest_even (x / 2 ^ k) = nearest_even (real_of_int M / 2 ^ k)"
proof -
  define D :: int where "D = 2 ^ k"
  define h :: int where "h = 2 ^ (k - 1)"
  define Q where "Q = M div D"
  define R where "R = M mod D"
  have D: "D = 2 * h" "0 < D" "even h" "0 < h"
    using k by (simp_all add: D_def h_def flip: power_Suc)
  have MQR: "M = Q * D + R" by (simp add: Q_def R_def)
  have R: "0 \<le> R" "R < D" using D by (simp_all add: R_def)
  have "odd R" using M D unfolding MQR by simp
  then have Rh: "R \<noteq> h" "1 \<le> R" "R \<le> D - 1" using D R by (auto elim: oddE)
  have Rodd: "R < h \<Longrightarrow> R \<le> h - 1" "h < R \<Longrightarrow> h + 1 \<le> R" by simp_all
  define t where "t = x - real_of_int M + 1"
  have t: "0 < t" "t < 2" using x by (simp_all add: t_def)
  have xe: "x = real_of_int Q * real_of_int D + (real_of_int R - 1 + t)"
    by (simp add: t_def MQR)
  have "real_of_int Q \<le> x / real_of_int D" "x / real_of_int D < real_of_int Q + 1"
    using D R Rh t unfolding xe by (simp_all add: field_simps)
  then have fl: "\<lfloor>x / real_of_int D\<rfloor> = Q" by (simp add: floor_unique)
  have fr: "x / real_of_int D - real_of_int Q = (real_of_int R - 1 + t) / real_of_int D"
    using D unfolding xe by (simp add: field_simps)
  have lt: "(real_of_int R - 1 + t) / real_of_int D < 1 / 2 \<longleftrightarrow> R < h"
  proof
    assume "(real_of_int R - 1 + t) / real_of_int D < 1 / 2"
    then have "real_of_int R - 1 + t < real_of_int h" using D by (simp add: field_simps)
    then have "real_of_int R < real_of_int h + 1" using t by linarith
    then have "R \<le> h" by linarith
    then show "R < h" using Rh by simp
  next
    assume "R < h"
    then have "real_of_int R \<le> real_of_int h - 1" using Rodd(1) by linarith
    then have "real_of_int R - 1 + t < real_of_int h" using t by linarith
    then show "(real_of_int R - 1 + t) / real_of_int D < 1 / 2" using D by (simp add: field_simps)
  qed
  have gt: "1 / 2 < (real_of_int R - 1 + t) / real_of_int D \<longleftrightarrow> h < R"
  proof
    assume "1 / 2 < (real_of_int R - 1 + t) / real_of_int D"
    then have "real_of_int h < real_of_int R - 1 + t" using D by (simp add: field_simps)
    then have "real_of_int h - 1 < real_of_int R" using t by linarith
    then have "h \<le> R" by linarith
    then show "h < R" using Rh by simp
  next
    assume "h < R"
    then have "real_of_int h + 1 \<le> real_of_int R" using Rodd(2) by linarith
    then have "real_of_int h < real_of_int R - 1 + t" using t by linarith
    then show "1 / 2 < (real_of_int R - 1 + t) / real_of_int D" using D by (simp add: field_simps)
  qed
  have a: "nearest_even (x / real_of_int D) = (if h < R then Q + 1 else Q)"
    unfolding nearest_even_def Let_def fl fr lt gt using Rh by auto
  have "0 < k" using k by simp
  then have b: "nearest_even (real_of_int M / 2 ^ k) = (if h < R then Q + 1 else Q)"
    using Rh by (simp add: nearest_even_div Q_def R_def D_def h_def)
  show ?thesis using a b by (simp add: D_def)
qed

lemma exponent_of_between:
  fixes b E :: int
  assumes "2 powr real_of_int (b - 1) \<le> x" "x < 2 powr real_of_int b"
  shows "exponent_of (x * 2 powr real_of_int E) = E + max (b - 53) (- 1074 - E)"
proof -
  have x: "0 < x" using assms(1) powr_gt_zero [of 2 "real_of_int (b - 1)"] by linarith
  have "2 powr real_of_int (b - 1) * 2 powr real_of_int E \<le> x * 2 powr real_of_int E"
    using assms(1) by (intro mult_right_mono) simp_all
  moreover have "x * 2 powr real_of_int E < 2 powr real_of_int b * 2 powr real_of_int E"
    using assms(2) by (intro mult_strict_right_mono) simp_all
  ultimately have "2 powr real_of_int (b - 1 + E) \<le> x * 2 powr real_of_int E"
    and "x * 2 powr real_of_int E < 2 powr real_of_int (b - 1 + E + 1)"
    by (simp_all add: powr_add powr_diff)
  then have "\<lfloor>log 2 (x * 2 powr real_of_int E)\<rfloor> = b - 1 + E"
    using x by (subst floor_log_eq_powr_iff) simp_all
  then show ?thesis by (simp add: exponent_of_def)
qed

lemma round_ratio_nearest:
  fixes n d E :: int
  assumes n: "0 < n" and d: "0 < d"
  shows "round_ratio s n d E \<noteq> NaN"
    and "units (round_ratio s n d E)
      = sign_of s * nearest_units (real_of_int n / real_of_int d * 2 powr real_of_int E)"
proof -
  define k where "k = nat (max 0 (bit_length d - bit_length n + 56))"
  define N where "N = n * 2 ^ k"
  define q where "q = N div d"
  define r where "r = N mod d"
  define M where "M = 2 * q + (if r = 0 then 0 else 1)"
  define E' where "E' = E - int k - 1"
  define x where "x = 2 * real_of_int N / real_of_int d"
  define b where "b = bit_length M"
  define sh where "sh = max (b - 53) (- 1074 - E')"
  have rr: "round_ratio s n d E = round_even s M E'"
    by (simp add: round_ratio_def Let_def k_def N_def q_def r_def M_def E'_def)
  have Nqr: "N = q * d + r" by (simp add: q_def r_def)
  have r: "0 \<le> r" "r < d" using d by (simp_all add: r_def)
  \<comment> \<open>the quotient has at least 56 bits\<close>
  have k: "bit_length d + 55 \<le> bit_length n - 1 + int k" by (simp add: k_def)
  have "real_of_int d * 2 ^ 55 < 2 powr real_of_int (bit_length d) * 2 powr real_of_int (int 55)"
    unfolding powr_nat using bit_length_bounds(2) [OF d] by simp
  also have "\<dots> = 2 powr real_of_int (bit_length d + 55)" by (simp add: powr_add)
  also have "\<dots> \<le> 2 powr real_of_int (bit_length n - 1 + int k)"
    using k by (intro powr_mono) simp_all
  also have "\<dots> = 2 powr real_of_int (bit_length n - 1) * 2 powr real_of_int (int k)"
    by (simp add: powr_add)
  also have "\<dots> \<le> real_of_int n * 2 powr real_of_int (int k)"
    using bit_length_bounds(1) [OF n] by (intro mult_right_mono) simp_all
  also have "\<dots> = real_of_int N" unfolding powr_nat by (simp add: N_def)
  finally have "real_of_int (d * 2 ^ 55) < real_of_int N" by simp
  then have "d * 2 ^ 55 \<le> N" by linarith
  then have "(d * 2 ^ 55) div d \<le> N div d" using d by (intro zdiv_mono1) simp_all
  then have q: "2 ^ 55 \<le> q" using d by (simp add: q_def)
  then have M: "0 < M" "2 ^ 56 \<le> M" by (simp_all add: M_def)
  have Mb: "2 powr real_of_int (b - 1) \<le> real_of_int M" "real_of_int M < 2 powr real_of_int b"
    unfolding b_def using bit_length_bounds [OF M(1)] by simp_all
  have "(2::real) ^ 56 \<le> real_of_int M"
    using M(2) of_int_le_iff [of "2 ^ 56" M, where ?'a = real] by simp
  then have "2 powr real_of_int (int 56) < 2 powr real_of_int b"
    unfolding powr_nat using Mb(2) by linarith
  then have "real_of_int (int 56) < real_of_int b"
    by (rule powr_less_cancel) simp
  then have b: "57 \<le> b" by simp
  then have sh: "2 \<le> nat sh" "0 < sh" by (simp_all add: sh_def)
  \<comment> \<open>the exact quotient and the integer with the sticky bit\<close>
  have xq: "x = 2 * real_of_int q + 2 * real_of_int r / real_of_int d"
    using d by (simp add: x_def Nqr field_simps)
  have p2: "2 powr real_of_int b = real_of_int (2 ^ nat b)" "2 powr real_of_int (b - 1) = real_of_int (2 ^ nat (b - 1))"
    using b powr_real_of_int [of 2 b] powr_real_of_int [of 2 "b - 1"] by simp_all
  have ev: "even ((2::int) ^ nat (b - 1))" using b by simp
  have key: "x = real_of_int M \<or> (odd M \<and> real_of_int M - 1 < x \<and> x < real_of_int M + 1)"
  proof (cases "r = 0")
    case True
    then show ?thesis by (simp add: xq M_def)
  next
    case False
    then have r0: "0 < r" using r by simp
    have Mo: "M = 2 * q + 1" "odd M" using False by (simp_all add: M_def)
    have "0 < 2 * real_of_int r / real_of_int d" "2 * real_of_int r / real_of_int d < 2"
      using r0 r d by (simp_all add: field_simps)
    then have "real_of_int M - 1 < x" "x < real_of_int M + 1"
      unfolding xq Mo by simp_all
    then show ?thesis using Mo by simp
  qed
  have near: "nearest_even (x / 2 ^ nat sh) = nearest_even (real_of_int M / 2 ^ nat sh)"
    using key nearest_even_sticky [OF sh(1), of M x] by auto
  have xb: "2 powr real_of_int (b - 1) \<le> x" "x < 2 powr real_of_int b"
  proof -
    show "2 powr real_of_int (b - 1) \<le> x"
      using key
    proof
      assume "x = real_of_int M"
      then show ?thesis using Mb by simp
    next
      assume odd: "odd M \<and> real_of_int M - 1 < x \<and> x < real_of_int M + 1"
      have "2 ^ nat (b - 1) \<le> M" using Mb(1) unfolding p2 by linarith
      moreover have "2 ^ nat (b - 1) \<noteq> M" using ev odd by metis
      ultimately have "2 ^ nat (b - 1) \<le> M - 1" by linarith
      then have "real_of_int (2 ^ nat (b - 1)) \<le> real_of_int M - 1" by linarith
      then show ?thesis unfolding p2 using odd by linarith
    qed
    show "x < 2 powr real_of_int b"
      using key
    proof
      assume "x = real_of_int M"
      then show ?thesis using Mb by simp
    next
      assume odd: "odd M \<and> real_of_int M - 1 < x \<and> x < real_of_int M + 1"
      have "M < 2 ^ nat b" using Mb(2) unfolding p2 by linarith
      then have "real_of_int M + 1 \<le> real_of_int (2 ^ nat b)" by linarith
      then show ?thesis unfolding p2 using odd by linarith
    qed
  qed
  have val: "real_of_int n / real_of_int d * 2 powr real_of_int E = x * 2 powr real_of_int E'"
  proof -
    have "2 powr real_of_int E' = 2 powr real_of_int E / (2 powr real_of_int (int k) * 2)"
      by (simp add: E'_def powr_diff)
    then show ?thesis unfolding powr_nat by (simp add: x_def N_def field_simps)
  qed
  have ex: "exponent_of (x * 2 powr real_of_int E') = E' + sh"
    unfolding sh_def by (rule exponent_of_between [OF xb])
  have "2 powr real_of_int (- sh) = inverse (2 ^ nat sh)"
    using sh powr_real_of_int [of 2 "- sh"] by simp
  then have inv: "y * 2 powr real_of_int (- sh) = y / 2 ^ nat sh" for y :: real
    by (simp add: field_simps)
  have nx: "nearest_even (x * 2 powr real_of_int (- sh))
      = nearest_even (real_of_int M * 2 powr real_of_int (- sh))"
    using near by (simp only: inv)
  have "x * 2 powr real_of_int E' / 2 powr real_of_int (E' + sh) = x * 2 powr real_of_int (- sh)"
    by (simp add: powr_add powr_minus field_simps)
  then have "nearest_units (x * 2 powr real_of_int E')
      = min (nearest_even (real_of_int M * 2 powr real_of_int (- sh)) * 2 ^ nat (E' + sh + 1074)) (2 ^ 2098)"
    unfolding nearest_units_def ex by (simp only: nx)
  then show "units (round_ratio s n d E)
      = sign_of s * nearest_units (real_of_int n / real_of_int d * 2 powr real_of_int E)"
    unfolding rr val using round_even_units(2) [OF M(1), of s E'] unfolding sh_def b_def by simp
  show "round_ratio s n d E \<noteq> NaN" unfolding rr by (rule round_even_units(1) [OF M(1)])
qed

lemma round_units_nearest: "sign_of (x < 0) * nearest_units \<bar>x\<bar> = round_units x" if "x \<noteq> 0"
  using that by (simp add: round_units_def sign_of_def)

lemma units_float64_of_int:
  "float64_of_int a \<noteq> NaN" "units (float64_of_int a) = round_units (real_of_int a)"
proof -
  show "float64_of_int a \<noteq> NaN"
    using round_even_nearest(1) [of "\<bar>a\<bar>" "a < 0" 0]
    by (cases "a = 0") (simp_all add: float64_of_int_def round_even_def)
  show "units (float64_of_int a) = round_units (real_of_int a)"
  proof (cases "a = 0")
    case True
    then show ?thesis by (simp add: float64_of_int_def round_even_def round_units_def)
  next
    case False
    then have "units (round_even (a < 0) \<bar>a\<bar> 0) = sign_of (a < 0) * nearest_units (real_of_int \<bar>a\<bar>)"
      using round_even_nearest(2) [of "\<bar>a\<bar>" "a < 0" 0] by simp
    then show ?thesis
      using False round_units_nearest [of "real_of_int a"] by (simp add: float64_of_int_def)
  qed
qed

lemma nearest_units_bounds:
  assumes "1 \<le> x" "x \<le> 2 ^ 64"
  shows "0 < nearest_units x" "nearest_units x < 2 ^ 2098"
proof -
  have x: "0 < x" using assms by linarith
  have "2 powr real_of_int 0 \<le> x" using assms by simp
  then have "0 \<le> log 2 x" using x by (simp add: le_log_iff)
  then have "0 \<le> \<lfloor>log 2 x\<rfloor>" by (simp add: le_floor_iff)
  then have lo: "- 1074 < exponent_of x" unfolding exponent_of_def by linarith
  have "x < 2 powr real_of_int (int 65)" unfolding powr_nat using assms by simp
  then have "log 2 x < real_of_int (int 65)" using x by (simp add: log_less_iff)
  then have "\<lfloor>log 2 x\<rfloor> < 65" by (simp add: floor_less_iff)
  then have hi: "exponent_of x \<le> 12" by (simp add: exponent_of_def)
  let ?m = "nearest_even (x / 2 powr real_of_int (exponent_of x))"
  have m: "2 ^ 52 \<le> ?m" "?m \<le> 2 ^ 53"
    using scaled_lower [OF x lo] scaled_upper [OF x] nearest_even_lower nearest_even_upper by simp_all
  have "(2::int) ^ 0 \<le> ?m * 2 ^ nat (exponent_of x + 1074)"
    using m(1) by (intro pow2_le_scaled [of 52]) simp_all
  then show "0 < nearest_units x" by (simp add: nearest_units_def)
  have "?m < 2 ^ 54" using m(2) by simp
  moreover have "nat (exponent_of x + 1074) \<le> 1086" using hi by simp
  ultimately have "?m * 2 ^ nat (exponent_of x + 1074) < (2::int) ^ 2098"
    by (intro scaled_less_pow2 [of _ 54]) simp_all
  then show "nearest_units x < 2 ^ 2098" by (simp add: nearest_units_def)
qed

lemma float64_of_int_finite:
  assumes "\<bar>a\<bar> \<le> 2 ^ 64"
  shows "\<exists>m e. float64_of_int a = Finite (a < 0) m e \<and> 0 \<le> m \<and> - 1074 \<le> e"
proof (cases "a = 0")
  case True
  then show ?thesis by (simp add: float64_of_int_def round_even_def)
next
  case False
  then have a: "0 < \<bar>a\<bar>" by simp
  define X where "X = real_of_int \<bar>a\<bar>"
  have "real_of_int \<bar>a\<bar> \<le> real_of_int (2 ^ 64)"
    using assms by (simp only: of_int_le_iff)
  then have "1 \<le> X" "X \<le> 2 ^ 64"
    using a by (simp_all add: X_def)
  then have "nearest_units X < 2 ^ 2098" "0 < nearest_units X"
    using nearest_units_bounds by simp_all
  moreover have "units (round_even (a < 0) \<bar>a\<bar> 0) = sign_of (a < 0) * nearest_units X"
    using round_even_nearest(2) [OF a, of "a < 0" 0] by (simp add: X_def)
  ultimately have "units (round_even (a < 0) \<bar>a\<bar> 0) \<noteq> units (Infinity (a < 0))"
    by (simp add: sign_of_def)
  then have "round_even (a < 0) \<bar>a\<bar> 0 \<noteq> Infinity (a < 0)" by metis
  then show ?thesis
    using round_even_units(3) [OF a, of "a < 0" 0] unfolding float64_of_int_def by blast
qed

lemma pow2_nat_powr: "0 \<le> k \<Longrightarrow> real_of_int (2 ^ nat k) = 2 powr real_of_int k"
  using powr_real_of_int [of 2 k] by simp

lemma round_units_signed: "0 < z \<Longrightarrow> round_units (real_of_int (sign_of s) * z) = sign_of s * nearest_units z"
  by (simp add: round_units_def sign_of_def)

lemma units_Finite: "units (Finite s m e) = sign_of s * (m * 2 ^ nat (e + 1074))"
  by (simp add: sign_of_def)

lemma units_fdiv:
  assumes "0 \<le> m" "- 1074 \<le> e" "0 < n" "- 1074 \<le> f"
  shows "fdiv (Finite s m e) (Finite False n f) \<noteq> NaN"
    and "units (fdiv (Finite s m e) (Finite False n f))
      = round_units (real_of_int (units (Finite s m e)) / real_of_int (units (Finite False n f)))"
proof -
  have fd: "fdiv (Finite s m e) (Finite False n f) = round_ratio s m n (e - f)"
    using assms by simp
  show "fdiv (Finite s m e) (Finite False n f) \<noteq> NaN"
  proof (cases "m = 0")
    case True
    then show ?thesis unfolding fd by (simp add: round_ratio_def round_even_def)
  next
    case False
    then show ?thesis unfolding fd using assms round_ratio_nearest(1) [of m n s "e - f"] by simp
  qed
  show "units (fdiv (Finite s m e) (Finite False n f))
      = round_units (real_of_int (units (Finite s m e)) / real_of_int (units (Finite False n f)))"
  proof (cases "m = 0")
    case True
    then show ?thesis unfolding fd by (simp add: round_ratio_def round_even_def round_units_def)
  next
    case False
    then have m: "0 < m" using assms by simp
    define z where "z = real_of_int m / real_of_int n * 2 powr real_of_int (e - f)"
    have z: "0 < z" using m assms by (simp add: z_def)
    have "real_of_int (m * 2 ^ nat (e + 1074)) / real_of_int (n * 2 ^ nat (f + 1074))
        = real_of_int m * 2 powr real_of_int (e + 1074) / (real_of_int n * 2 powr real_of_int (f + 1074))"
      using assms by (simp only: of_int_mult pow2_nat_powr)
    also have "\<dots> = z"
      by (simp add: z_def powr_add powr_diff field_simps)
    finally have "real_of_int (units (Finite s m e)) / real_of_int (units (Finite False n f))
        = real_of_int (sign_of s) * z"
      unfolding units_Finite by (simp add: sign_of_def)
    then show ?thesis
      unfolding fd using round_ratio_nearest(2) [OF m assms(3), of s "e - f"] round_units_signed [OF z, of s]
      by (simp add: z_def)
  qed
qed

lemma fdiv_float64_of_int_mono:
  fixes a b p :: int
  assumes p: "0 < p" "p \<le> 2 ^ 64" and a: "\<bar>a\<bar> \<le> 2 ^ 64" and b: "\<bar>b\<bar> \<le> 2 ^ 64" and ab: "a \<le> b"
  shows "fle (fdiv (float64_of_int a) (float64_of_int p)) (fdiv (float64_of_int b) (float64_of_int p))"
proof -
  define P where "P = float64_of_int p"
  have "\<bar>p\<bar> \<le> 2 ^ 64" using p by simp
  then obtain n f where P: "P = Finite False n f" "0 \<le> n" "- 1074 \<le> f"
    using float64_of_int_finite [of p] p(1) unfolding P_def by auto
  have "real_of_int 1 \<le> real_of_int p" "real_of_int p \<le> real_of_int (2 ^ 64)"
    using p by (simp_all only: of_int_le_iff)
  then have "0 < nearest_units (real_of_int p)"
    using nearest_units_bounds(1) by simp
  then have U: "0 < units P"
    using p(1) units_float64_of_int(2) [of p] by (simp add: P_def round_units_def)
  then have n: "0 < n" unfolding P by (simp add: zero_less_mult_iff)
  have quot: "fdiv (float64_of_int c) P \<noteq> NaN \<and> units (fdiv (float64_of_int c) P)
      = round_units (real_of_int (round_units (real_of_int c)) / real_of_int (units P))"
    if c: "\<bar>c\<bar> \<le> 2 ^ 64" for c :: int
  proof -
    obtain m e where F: "float64_of_int c = Finite (c < 0) m e" "0 \<le> m" "- 1074 \<le> e"
      using float64_of_int_finite [OF c] by blast
    have "units (Finite (c < 0) m e) = round_units (real_of_int c)"
      using units_float64_of_int(2) [of c] F(1) by simp
    then show ?thesis
      using units_fdiv [OF F(2,3) n P(3), of "c < 0"] unfolding F(1) P(1) by simp
  qed
  have "round_units (real_of_int a) \<le> round_units (real_of_int b)"
    using ab by (intro round_units_mono) (simp only: of_int_le_iff)
  then have "real_of_int (round_units (real_of_int a)) / real_of_int (units P)
      \<le> real_of_int (round_units (real_of_int b)) / real_of_int (units P)"
    using U by (intro divide_right_mono) simp_all
  then have "units (fdiv (float64_of_int a) P) \<le> units (fdiv (float64_of_int b) P)"
    using quot [OF a] quot [OF b] round_units_mono by simp
  then show ?thesis
    using quot [OF a] quot [OF b] by (simp add: fle_def P_def)
qed

lemma Value_mono:
  assumes p: "prec g \<noteq> 0" "prec g' = prec g" and v: "sint (val g) \<le> sint (val g')"
  shows "fle (FixedPrecisionGauge_Value g) (FixedPrecisionGauge_Value g')"
proof -
  have "uint (prec g) \<noteq> 0" using p(1) by (simp add: uint_0_iff)
  moreover have "0 \<le> uint (prec g)" by simp
  ultimately have u: "0 < uint (prec g)" by linarith
  have u': "uint (prec g) \<le> 2 ^ 64" using uint_lt2p [of "prec g"] by simp
  have s: "\<bar>sint (val g)\<bar> \<le> 2 ^ 64" "\<bar>sint (val g')\<bar> \<le> 2 ^ 64"
    using sint_ge [of "val g"] sint_lt [of "val g"] sint_ge [of "val g'"] sint_lt [of "val g'"]
    by simp_all
  show ?thesis
    unfolding FixedPrecisionGauge_Value_def float64_of_int64_def float64_of_uint_def p(2)
    by (rule fdiv_float64_of_int_mono [OF u u' s v])
qed

lemma sint_add_word_of_int:
  fixes w :: "64 word"
  assumes "- (2 ^ 63) \<le> sint w + d" "sint w + d < 2 ^ 63"
  shows "sint (w + word_of_int d) = sint w + d"
proof -
  have "w + word_of_int d = word_of_int (sint w + d)" by simp
  then show ?thesis
    using assms by (simp only: sint_sbintrunc') (simp add: signed_take_bit_int_eq_self)
qed

lemma apply_call_prec:
  "prec (FixedPrecisionGauge (apply_call c fpc)) = prec (FixedPrecisionGauge fpc)"
  by (cases c)
    (simp_all add: FixedPrecisionCounter_Inc_def promoted_def FixedPrecisionCounter_Add_def gauge_defs)

lemma trunc_zero_nonneg:
  assumes "trunc_zero (Finite False m e) = Some t" "0 \<le> m"
  shows "0 \<le> t"
  using assms by (auto simp: Let_def pos_imp_zdiv_nonneg_iff split: if_splits)

lemma fmul_trunc_nonneg:
  assumes v: "is_float64 v" "\<not> flt v (float64_of_int 0)" and n: "0 \<le> n"
    and t: "trunc_zero (fmul v (Finite False n f)) = Some t"
  shows "0 \<le> t"
proof (cases v)
  case (Finite s m e)
  then have m: "0 \<le> m" using v(1) by auto
  show ?thesis
  proof (cases "m * n = 0")
    case True
    then show ?thesis using t unfolding Finite by (simp add: round_even_def Let_def split: if_splits)
  next
    case False
    then have mn: "0 < m * n" "0 < m" using m n by (simp_all add: zero_less_mult_iff order_less_le)
    have "s = False"
      using v(2) mn(2) unfolding Finite by (cases s) (simp_all add: flt_def float64_zero)
    then have fm: "fmul v (Finite False n f) = round_even False (m * n) (e + f)"
      unfolding Finite by simp
    from round_even_units(3) [OF mn(1), of False "e + f"] show ?thesis
    proof
      assume "round_even False (m * n) (e + f) = Infinity False"
      then show ?thesis using t unfolding fm by simp
    next
      assume "\<exists>m' e'. round_even False (m * n) (e + f) = Finite False m' e' \<and> 0 \<le> m' \<and> - 1074 \<le> e'
        \<and> is_float64 (Finite False m' e')"
      then obtain m' e' where "round_even False (m * n) (e + f) = Finite False m' e'" "0 \<le> m'"
        by blast
      then show ?thesis using t trunc_zero_nonneg unfolding fm by metis
    qed
  qed
next
  case (Infinity s)
  then show ?thesis using t by (simp split: if_splits)
next
  case NaN
  then show ?thesis using t by simp
qed

lemma apply_call_val:
  assumes "float64_call c" "within_int64 c fpc"
  shows "sint (val (FixedPrecisionGauge fpc)) \<le> sint (val (FixedPrecisionGauge (apply_call c fpc)))"
proof (cases c)
  case Call_Inc
  define g where "g = FixedPrecisionGauge fpc"
  have r: "sint (val g) + uint (prec g) < 2 ^ 63"
    using assms(2) unfolding Call_Inc g_def by simp
  have "- (2 ^ 63) \<le> sint (val g)" using sint_ge [of "val g"] by simp
  then have l: "- (2 ^ 63) \<le> sint (val g) + uint (prec g)"
    using uint_ge_0 [of "prec g"] by linarith
  have "val (FixedPrecisionGauge (apply_call c fpc)) = val g + word_of_int (uint (prec g))"
    unfolding Call_Inc g_def by (simp add: FixedPrecisionCounter_Inc_def promoted_def gauge_defs)
  then have "sint (val (FixedPrecisionGauge (apply_call c fpc))) = sint (val g) + uint (prec g)"
    using sint_add_word_of_int [OF l r] by simp
  then show ?thesis using uint_ge_0 [of "prec g"] unfolding g_def by linarith
next
  case (Call_Add v)
  define g where "g = FixedPrecisionGauge fpc"
  show ?thesis
  proof (cases "flt v (float64_of_int 0)")
    case True
    then show ?thesis unfolding Call_Add by (simp add: FixedPrecisionCounter_Add_def)
  next
    case False
    have "\<bar>uint (prec g)\<bar> \<le> 2 ^ 64" using uint_lt2p [of "prec g"] by simp
    then obtain n f where P: "float64_of_uint (prec g) = Finite False n f" "0 \<le> n"
      using float64_of_int_finite [of "uint (prec g)"] unfolding float64_of_uint_def by auto
    obtain t where t: "trunc_zero (fmul v (float64_of_uint (prec g))) = Some t"
      "t < 2 ^ 63" "sint (val g) + t < 2 ^ 63"
      using assms(2) False unfolding Call_Add g_def by (auto split: option.splits)
    have t0: "0 \<le> t"
      using fmul_trunc_nonneg [of v n f t] assms(1) False P t(1) unfolding Call_Add by simp
    have "- (2 ^ 63) \<le> sint (val g)" using sint_ge [of "val g"] by simp
    then have l: "- (2 ^ 63) \<le> sint (val g) + t" using t0 by linarith
    have "int64_of_float64 (fmul v (float64_of_uint (prec g))) = word_of_int t"
      using t t0 by (simp add: int64_of_float64_def)
    then have "val (FixedPrecisionGauge (apply_call c fpc)) = val g + word_of_int t"
      using False unfolding Call_Add g_def
      by (simp add: FixedPrecisionCounter_Add_def FixedPrecisionGauge_Add_def)
    then have "sint (val (FixedPrecisionGauge (apply_call c fpc))) = sint (val g) + t"
      using sint_add_word_of_int [OF l t(3)] by simp
    then show ?thesis using t0 unfolding g_def by linarith
  qed
qed

lemma observed_values_from:
  fixes fpc :: "'d FixedPrecisionCounter"
  assumes "list_all float64_call cs" "all_within_int64 cs fpc" "x \<in> set (observed_values cs fpc)"
  shows "\<exists>g :: 'd FixedPrecisionGauge. x = FixedPrecisionGauge_Value g \<and> prec g = prec (FixedPrecisionGauge fpc)
    \<and> sint (val (FixedPrecisionGauge fpc)) \<le> sint (val g)"
  using assms
proof (induction cs arbitrary: fpc)
  case Nil
  then show ?case by (auto simp: FixedPrecisionCounter_Value_def)
next
  case (Cons c cs)
  from Cons.prems(3) consider "x = FixedPrecisionCounter_Value fpc"
    | "x \<in> set (observed_values cs (apply_call c fpc))" by auto
  then show ?case
  proof cases
    case 1
    then show ?thesis by (auto simp: FixedPrecisionCounter_Value_def)
  next
    case 2
    then obtain g :: "'d FixedPrecisionGauge" where g: "x = FixedPrecisionGauge_Value g"
      "prec g = prec (FixedPrecisionGauge (apply_call c fpc))"
      "sint (val (FixedPrecisionGauge (apply_call c fpc))) \<le> sint (val g)"
      using Cons.IH [of "apply_call c fpc"] Cons.prems(1,2) by auto
    have "sint (val (FixedPrecisionGauge fpc)) \<le> sint (val (FixedPrecisionGauge (apply_call c fpc)))"
      using apply_call_val [of c fpc] Cons.prems(1,2) by simp
    then show ?thesis using g apply_call_prec [of c fpc] by (intro exI [of _ g]) simp
  qed
qed

lemmas counter_defs = FixedPrecisionCounter_Inc_def FixedPrecisionCounter_Dec_def
  FixedPrecisionCounter_Sub_def FixedPrecisionCounter_Set_def FixedPrecisionCounter_Value_def
  promoted_def FixedPrecisionCounter_Add_def

lemma counter_3_steps:
  "apply_call Call_Inc \<lparr>FixedPrecisionGauge = \<lparr>val = 0, prec = 1000, desc = ()\<rparr>\<rparr>
     = \<lparr>FixedPrecisionGauge = \<lparr>val = 1000, prec = 1000, desc = ()\<rparr>\<rparr>"
  "apply_call (Call_Add (Finite False 5953195757430374 (- 47)))
       \<lparr>FixedPrecisionGauge = \<lparr>val = 1000, prec = 1000, desc = ()\<rparr>\<rparr>
     = \<lparr>FixedPrecisionGauge = \<lparr>val = 43300, prec = 1000, desc = ()\<rparr>\<rparr>"
  "apply_call (Call_Add (Finite True 4503599627370496 (- 52)))
       \<lparr>FixedPrecisionGauge = \<lparr>val = 43300, prec = 1000, desc = ()\<rparr>\<rparr>
     = \<lparr>FixedPrecisionGauge = \<lparr>val = 43300, prec = 1000, desc = ()\<rparr>\<rparr>"
  "apply_call Call_Inc \<lparr>FixedPrecisionGauge = \<lparr>val = 43300, prec = 1000, desc = ()\<rparr>\<rparr>
     = \<lparr>FixedPrecisionGauge = \<lparr>val = 44300, prec = 1000, desc = ()\<rparr>\<rparr>"
  by (simp_all add: counter_defs gauge_defs flt_def float64_eval)

lemma counter_3_within:
  "within_int64 Call_Inc \<lparr>FixedPrecisionGauge = \<lparr>val = 0, prec = 1000, desc = ()\<rparr>\<rparr>"
  "within_int64 (Call_Add (Finite False 5953195757430374 (- 47)))
       \<lparr>FixedPrecisionGauge = \<lparr>val = 1000, prec = 1000, desc = ()\<rparr>\<rparr>"
  "within_int64 (Call_Add (Finite True 4503599627370496 (- 52)))
       \<lparr>FixedPrecisionGauge = \<lparr>val = 43300, prec = 1000, desc = ()\<rparr>\<rparr>"
  "within_int64 Call_Inc \<lparr>FixedPrecisionGauge = \<lparr>val = 43300, prec = 1000, desc = ()\<rparr>\<rparr>"
  by (simp_all add: flt_def float64_eval)

lemma counter_3_values:
  "FixedPrecisionCounter_Value \<lparr>FixedPrecisionGauge = \<lparr>val = 0, prec = 1000, desc = ()\<rparr>\<rparr>
     = Finite False 0 (- 1074)"
  "FixedPrecisionCounter_Value \<lparr>FixedPrecisionGauge = \<lparr>val = 1000, prec = 1000, desc = ()\<rparr>\<rparr>
     = Finite False 4503599627370496 (- 52)"
  "FixedPrecisionCounter_Value \<lparr>FixedPrecisionGauge = \<lparr>val = 43300, prec = 1000, desc = ()\<rparr>\<rparr>
     = Finite False 6093933245785702 (- 47)"
  "FixedPrecisionCounter_Value \<lparr>FixedPrecisionGauge = \<lparr>val = 44300, prec = 1000, desc = ()\<rparr>\<rparr>
     = Finite False 6234670734141030 (- 47)"
  by (simp_all add: counter_defs gauge_defs float64_eval)

lemma const_42_3: "float64_const 423 10 = Finite False 5953195757430374 (- 47)"
  by (simp add: float64_eval)

lemma NewCounter_0:
  "NewFixedPrecisionCounter d 0 = \<lparr>FixedPrecisionGauge = \<lparr>val = 0, prec = 1, desc = d\<rparr>\<rparr>"
  by (simp add: NewFixedPrecisionCounter_def float64_eval)

lemma NewCounter_18:
  "NewFixedPrecisionCounter d 18
     = \<lparr>FixedPrecisionGauge = \<lparr>val = 0, prec = 1000000000000000000, desc = d\<rparr>\<rparr>"
  by (simp add: NewFixedPrecisionCounter_def float64_eval)

lemma nine_Inc:
  "(FixedPrecisionCounter_Inc ^^ 9) \<lparr>FixedPrecisionGauge = \<lparr>val = 0, prec = 1000000000000000000, desc = ()\<rparr>\<rparr>
     = \<lparr>FixedPrecisionGauge = \<lparr>val = 9000000000000000000, prec = 1000000000000000000, desc = ()\<rparr>\<rparr>"
  by (simp add: eval_nat_numeral counter_defs gauge_defs)

lemma tenth_Inc:
  "FixedPrecisionCounter_Inc
      \<lparr>FixedPrecisionGauge = \<lparr>val = 9000000000000000000, prec = 1000000000000000000, desc = ()\<rparr>\<rparr>
     = \<lparr>FixedPrecisionGauge = \<lparr>val = word_of_int (- 8446744073709551616), prec = 1000000000000000000, desc = ()\<rparr>\<rparr>"
  by (simp add: counter_defs gauge_defs)

lemma wrapped_values:
  "FixedPrecisionCounter_Value
      \<lparr>FixedPrecisionGauge = \<lparr>val = 9000000000000000000, prec = 1000000000000000000, desc = ()\<rparr>\<rparr>
     = float64_const 9 1"
  "FixedPrecisionCounter_Value
      \<lparr>FixedPrecisionGauge = \<lparr>val = word_of_int (- 8446744073709551616), prec = 1000000000000000000, desc = ()\<rparr>\<rparr>
     = float64_const (- 8446744073709551616) 1000000000000000000"
  "flt (float64_const (- 8446744073709551616) 1000000000000000000) (float64_const 9 1)"
  by (simp_all add: counter_defs gauge_defs flt_def float64_eval)

lemma Dec_values:
  "FixedPrecisionCounter_Value \<lparr>FixedPrecisionGauge = \<lparr>val = 0, prec = 1, desc = ()\<rparr>\<rparr> = float64_const 0 1"
  "FixedPrecisionCounter_Value (FixedPrecisionCounter_Dec \<lparr>FixedPrecisionGauge = \<lparr>val = 0, prec = 1, desc = ()\<rparr>\<rparr>)
     = float64_const (- 1) 1"
  "FixedPrecisionCounter_Value
     (FixedPrecisionCounter_Sub (float64_const 1 1) \<lparr>FixedPrecisionGauge = \<lparr>val = 0, prec = 1, desc = ()\<rparr>\<rparr>)
     = float64_const (- 1) 1"
  "flt (float64_const (- 1) 1) (float64_const 0 1)"
  by (simp_all add: counter_defs gauge_defs flt_def float64_eval)

section \<open>The operations stay within float64\<close>

text \<open>
  Conversion to an integer is truncation towards zero of the number that the float64
  stands for, and rounding, multiplication, division and \<open>Value\<close> give float64 values in
  canonical form.
\<close>

lemma trunc_zero_floor:
  "trunc_zero (Finite s m e) = Some (sign_of s * \<lfloor>real_of_int m * 2 powr real_of_int e\<rfloor>)"
proof (cases "0 \<le> e")
  case True
  then have "real_of_int m * 2 powr real_of_int e = real_of_int (m * 2 ^ nat e)"
    using powr_real_of_int [of 2 e] by simp
  then have "\<lfloor>real_of_int m * 2 powr real_of_int e\<rfloor> = m * 2 ^ nat e"
    by (simp only: floor_of_int)
  then show ?thesis using True by (simp add: sign_of_def)
next
  case False
  then have "2 powr real_of_int e = inverse (real_of_int (2 ^ nat (- e)))"
    using powr_real_of_int [of 2 e] by simp
  then have "real_of_int m * 2 powr real_of_int e = real_of_int m / real_of_int (2 ^ nat (- e))"
    by (simp add: field_simps)
  then have "\<lfloor>real_of_int m * 2 powr real_of_int e\<rfloor> = m div 2 ^ nat (- e)"
    by (simp only: floor_divide_of_int_eq)
  then show ?thesis using False by (simp add: sign_of_def)
qed

lemma is_float64_round_even: "0 \<le> M \<Longrightarrow> is_float64 (round_even s M E)"
proof (cases "M = 0")
  case True
  then show ?thesis by (simp add: round_even_def)
next
  case False
  assume "0 \<le> M"
  then have "0 < M" using False by simp
  from round_even_units(3) [OF this, of s E] show ?thesis by auto
qed

lemma is_float64_of_int: "is_float64 (float64_of_int a)"
  by (simp add: float64_of_int_def is_float64_round_even)

lemma is_float64_mantissa: "is_float64 (Finite s m e) \<Longrightarrow> 0 \<le> m"
  by auto

lemma is_float64_fmul: "is_float64 x \<Longrightarrow> is_float64 y \<Longrightarrow> is_float64 (fmul x y)"
proof (induction x y rule: fmul.induct)
  case (6 s m e t n f)
  then have "0 \<le> m * n" using is_float64_mantissa by (metis mult_nonneg_nonneg)
  then show ?case by (simp add: is_float64_round_even)
qed simp_all

lemma is_float64_round_ratio: "0 \<le> n \<Longrightarrow> 0 < d \<Longrightarrow> is_float64 (round_ratio s n d E)"
proof -
  assume n: "0 \<le> n" and d: "0 < d"
  have "0 \<le> n * 2 ^ k div d" for k :: nat
    using n d by (simp add: pos_imp_zdiv_nonneg_iff)
  then show ?thesis
    unfolding round_ratio_def Let_def by (intro is_float64_round_even) simp
qed

lemma is_float64_fdiv: "is_float64 x \<Longrightarrow> is_float64 y \<Longrightarrow> is_float64 (fdiv x y)"
proof (induction x y rule: fdiv.induct)
  case (6 s m e t n f)
  then have "0 \<le> m" "0 \<le> n" using is_float64_mantissa by blast+
  then show ?case by (auto simp: is_float64_round_ratio order_less_le simp del: is_float64.simps(1))
qed simp_all

lemma is_float64_Value: "is_float64 (FixedPrecisionGauge_Value fpg)"
  by (simp add: FixedPrecisionGauge_Value_def float64_of_int64_def float64_of_uint_def
      is_float64_fdiv is_float64_of_int)

lemma Set_minus_one:
  "FixedPrecisionCounter_Value
     (FixedPrecisionCounter_Set (float64_const (- 1) 1) \<lparr>FixedPrecisionGauge = \<lparr>val = 0, prec = 1, desc = ()\<rparr>\<rparr>)
     = float64_const (- 1) 1"
  by (simp add: counter_defs gauge_defs float64_eval)

section \<open>Interleavings of \<open>Inc\<close>\<close>

text \<open>
  Every step takes one call from the pending ones, so an execution ends; what \<open>val\<close> has
  gained and what is pending add up to the same at every point; and from every
  configuration the calls that are left can be made.
\<close>

lemma sum_list_update_Suc:
  "i < length xs \<Longrightarrow> xs ! i = Suc k \<Longrightarrow> sum_list xs = Suc (sum_list (xs[i := k]))"
proof (induction xs arbitrary: i)
  case Nil
  then show ?case by simp
next
  case (Cons x xs)
  then show ?case by (cases i) auto
qed

lemma sum_list_pos_nth:
  "sum_list xs \<noteq> (0::nat) \<Longrightarrow> \<exists>i k. i < length xs \<and> xs ! i = Suc k"
proof -
  assume "sum_list xs \<noteq> 0"
  then obtain x where "x \<in> set xs" "x \<noteq> 0" by auto
  then obtain i where "i < length xs" "xs ! i = x" by (auto simp: in_set_conv_nth)
  with \<open>x \<noteq> 0\<close> show ?thesis by (metis not0_implies_Suc)
qed

lemma Inc_step_decreases: "Inc_step c c' \<Longrightarrow> sum_list (fst c') < sum_list (fst c)"
  by (induction rule: Inc_step.induct) (simp add: sum_list_update_Suc)

lemma Inc_step_invariant:
  assumes "Inc_step\<^sup>*\<^sup>* (pending0, fpg0) (pending, fpg)"
  shows "prec fpg = prec fpg0 \<and> desc fpg = desc fpg0 \<and> length pending = length pending0
    \<and> sum_list pending \<le> sum_list pending0
    \<and> val fpg + of_nat (sum_list pending) * prec fpg0 = val fpg0 + of_nat (sum_list pending0) * prec fpg0"
  using assms
proof (induction rule: rtranclp_induct2)
  case refl
  then show ?case by simp
next
  case (step p g p' g')
  from step.hyps(2) obtain i k where s: "i < length p" "p ! i = Suc k" "p' = p[i := k]"
    "g' = FixedPrecisionGauge_Inc g"
    by (auto elim: Inc_step.cases)
  have "sum_list p = Suc (sum_list p')" using s sum_list_update_Suc by simp
  then show ?case
    using step.IH s by (simp add: gauge_defs algebra_simps)
qed

lemma Inc_run_to_end:
  "Inc_step\<^sup>*\<^sup>* (pending, fpg)
     (map (\<lambda>_. 0) pending, fpg\<lparr>val := val fpg + of_nat (sum_list pending) * prec fpg\<rparr>)"
proof (induction "sum_list pending" arbitrary: pending fpg)
  case 0
  then have z: "sum_list pending = 0" by simp
  then have "map (\<lambda>_. 0) pending = pending" by (simp add: map_idI)
  moreover have "fpg\<lparr>val := val fpg + of_nat (sum_list pending) * prec fpg\<rparr> = fpg"
    unfolding z by simp
  ultimately show ?case by simp
next
  case (Suc n)
  have "sum_list pending \<noteq> 0" using Suc.hyps(2) by (metis Zero_not_Suc)
  then obtain i k where i: "i < length pending" "pending ! i = Suc k"
    using sum_list_pos_nth [of pending] by blast
  then have n: "n = sum_list (pending[i := k])"
    using Suc.hyps(2) sum_list_update_Suc [of i pending k] by simp
  have "Inc_step (pending, fpg) (pending[i := k], FixedPrecisionGauge_Inc fpg)"
    using i by (rule thread_Inc)
  moreover have "Inc_step\<^sup>*\<^sup>* (pending[i := k], FixedPrecisionGauge_Inc fpg)
     (map (\<lambda>_. 0) (pending[i := k]),
      (FixedPrecisionGauge_Inc fpg)\<lparr>val := val (FixedPrecisionGauge_Inc fpg)
         + of_nat (sum_list (pending[i := k])) * prec (FixedPrecisionGauge_Inc fpg)\<rparr>)"
    by (rule Suc.hyps(1) [OF n])
  moreover have "map (\<lambda>_. 0) (pending[i := k]) = map (\<lambda>_. (0::nat)) pending"
    using i(1) by (simp add: map_update list_update_same_conv)
  moreover have "(FixedPrecisionGauge_Inc fpg)\<lparr>val := val (FixedPrecisionGauge_Inc fpg)
         + of_nat (sum_list (pending[i := k])) * prec (FixedPrecisionGauge_Inc fpg)\<rparr>
      = fpg\<lparr>val := val fpg + of_nat (sum_list pending) * prec fpg\<rparr>"
    using Suc.hyps(2) [symmetric] by (simp add: gauge_defs algebra_simps flip: n)
  ultimately show ?case by (metis converse_rtranclp_into_rtranclp)
qed


lemma float64_one: "float64_of_int 1 = Finite False (2 ^ 52) (- 52)"
  by (simp add: float64_eval)

lemma round_even_self:
  assumes "is_float64 (Finite s m e)"
  shows "round_even s m e = Finite s m e"
proof (cases "m = 0")
  case True
  with assms show ?thesis by (simp add: round_even_def)
next
  case False
  with assms have m: "0 < m" "m < 2 ^ 53" by auto
  have sh: "max (bit_length m - 53) (- 1074 - e) = 0"
  proof (cases "2 ^ 52 \<le> m")
    case True
    then have "bit_length m = 53" using m bit_length_eqI [of 52 m] by simp
    moreover have "- 1074 \<le> e" using assms by auto
    ultimately show ?thesis by simp
  next
    case False
    then have "bit_length m \<le> 52" using m bit_length_le [of m 52] by simp
    moreover have "e = - 1074" using assms False by auto
    ultimately show ?thesis by simp
  qed
  have "e \<le> 971" using assms by auto
  then show ?thesis
    using m unfolding round_even_def sh Let_def by simp
qed

lemma units_fdiv_one:
  assumes "is_float64 (Finite s m e)"
  shows "fdiv (Finite s m e) (float64_of_int 1) \<noteq> NaN"
    and "units (fdiv (Finite s m e) (float64_of_int 1)) = units (Finite s m e)"
proof -
  have fd: "fdiv (Finite s m e) (float64_of_int 1) = round_ratio s m (2 ^ 52) (e + 52)"
    unfolding float64_one by simp
  have m0: "0 \<le> m" using assms by auto
  show "fdiv (Finite s m e) (float64_of_int 1) \<noteq> NaN"
  proof (cases "m = 0")
    case True
    then show ?thesis unfolding fd by (simp add: round_ratio_def round_even_def)
  next
    case False
    then have "0 < m" using m0 by simp
    then show ?thesis unfolding fd by (intro round_ratio_nearest(1)) simp_all
  qed
  show "units (fdiv (Finite s m e) (float64_of_int 1)) = units (Finite s m e)"
  proof (cases "m = 0")
    case True
    then show ?thesis unfolding fd by (simp add: round_ratio_def round_even_def)
  next
    case False
    then have m: "0 < m" using m0 by simp
    have "2 powr real_of_int (e + 52) = 2 powr real_of_int e * 2 powr real_of_int (int 52)"
      by (simp add: powr_add)
    then have eq: "real_of_int m / real_of_int (2 ^ 52) * 2 powr real_of_int (e + 52)
        = real_of_int m * 2 powr real_of_int e"
      unfolding powr_nat by simp
    have "units (round_ratio s m (2 ^ 52) (e + 52))
        = sign_of s * nearest_units (real_of_int m / real_of_int (2 ^ 52) * 2 powr real_of_int (e + 52))"
      by (rule round_ratio_nearest(2) [OF m]) simp
    also have "\<dots> = sign_of s * nearest_units (real_of_int m * 2 powr real_of_int e)"
      by (simp only: eq)
    also have "\<dots> = units (round_even s m e)"
      using round_even_nearest(2) [OF m, of s e] by simp
    finally show ?thesis unfolding fd round_even_self [OF assms] .
  qed
qed

lemma units_float64_of_int_exact:
  assumes "0 \<le> K" "K \<le> 2 ^ 53"
  shows "units (float64_of_int K) = K * 2 ^ 1074"
proof -
  consider "K = 0" | "K = 2 ^ 53" | "0 < K" "K < 2 ^ 53" using assms by linarith
  then show ?thesis
  proof cases
    case 1
    then show ?thesis by (simp add: float64_of_int_def round_even_def)
  next
    case 2
    have "float64_of_int (2 ^ 53) = Finite False (2 ^ 52) 1" by (simp add: float64_eval)
    then show ?thesis unfolding 2 by simp
  next
    case 3
    define sh where "sh = max (bit_length K - 53) (- 1074 - 0)"
    have "0 \<le> bit_length K" by (simp add: bit_length_bitlen bitlen_nonneg)
    moreover have "bit_length K \<le> 53" using 3 bit_length_le [of K 53] by simp
    ultimately have sh: "sh = bit_length K - 53" "sh \<le> 0" "- 53 \<le> sh" by (simp_all add: sh_def)
    have "2 powr real_of_int (- sh) = real_of_int (2 ^ nat (- sh))"
      using sh pow2_nat_powr [of "- sh"] by simp
    then have "real_of_int K * 2 powr real_of_int (- sh) = real_of_int (K * 2 ^ nat (- sh))"
      by simp
    then have ne: "nearest_even (real_of_int K * 2 powr real_of_int (- sh)) = K * 2 ^ nat (- sh)"
      by (simp only: nearest_even_of_int)
    have "nat (- sh) + nat (0 + sh + 1074) = 1074" using sh by simp
    then have "K * 2 ^ nat (- sh) * 2 ^ nat (0 + sh + 1074) = K * 2 ^ 1074"
      by (simp only: mult.assoc flip: power_add)
    moreover have "K * 2 ^ 1074 < 2 ^ 2098"
      using 3 by (intro scaled_less_pow2 [of K 53]) simp_all
    ultimately have "min (K * 2 ^ nat (- sh) * 2 ^ nat (0 + sh + 1074)) (2 ^ 2098) = K * 2 ^ 1074"
      by (simp only: min_def) simp
    then show ?thesis
      using round_even_units(2) [OF 3(1), of False 0] 3
      unfolding float64_of_int_def sh_def [symmetric] ne by (simp add: sign_of_def)
  qed
qed

lemma sint_of_nat_64: "K < 2 ^ 63 \<Longrightarrow> sint (of_nat K :: 64 word) = int K"
proof -
  assume "K < 2 ^ 63"
  then have "int K < 2 ^ 63" by (metis of_nat_less_iff of_nat_numeral of_nat_power)
  moreover have "(of_nat K :: 64 word) = word_of_int (int K)" by simp
  ultimately show ?thesis
    by (simp only: sint_sbintrunc') (simp add: signed_take_bit_int_eq_self)
qed

section \<open>The properties of the specification\<close>

text \<open>
  C1. For every sequence of calls of \<open>Inc()\<close> and \<open>Add(v)\<close> on a counter with a scale factor
  other than 0, where every \<open>v\<close> is a float64 and every call stays within \<open>int64\<close>, the values
  that \<open>Value()\<close> returns before, between and after the calls are non-decreasing.
\<close>

theorem counter_values_non_decreasing:
  fixes fpc :: "'d FixedPrecisionCounter"
  assumes "prec (FixedPrecisionGauge fpc) \<noteq> 0" and "list_all float64_call cs"
    and "all_within_int64 cs fpc"
  shows "sorted_wrt fle (observed_values cs fpc)"
  using assms
proof (induction cs arbitrary: fpc)
  case Nil
  then show ?case by simp
next
  case (Cons c cs)
  have p: "prec (FixedPrecisionGauge (apply_call c fpc)) \<noteq> 0"
    using Cons.prems(1) by (simp add: apply_call_prec)
  have v: "sint (val (FixedPrecisionGauge fpc)) \<le> sint (val (FixedPrecisionGauge (apply_call c fpc)))"
    using apply_call_val [of c fpc] Cons.prems(2,3) by simp
  have "fle (FixedPrecisionCounter_Value fpc) x" if x: "x \<in> set (observed_values cs (apply_call c fpc))" for x
  proof -
    obtain g :: "'d FixedPrecisionGauge" where g: "x = FixedPrecisionGauge_Value g"
      "prec g = prec (FixedPrecisionGauge (apply_call c fpc))"
      "sint (val (FixedPrecisionGauge (apply_call c fpc))) \<le> sint (val g)"
      using observed_values_from [of cs "apply_call c fpc" x] Cons.prems(2,3) x by auto
    have "sint (val (FixedPrecisionGauge fpc)) \<le> sint (val g)" using v g(3) by linarith
    then show ?thesis
      unfolding g(1) FixedPrecisionCounter_Value_def
      using Value_mono [of "FixedPrecisionGauge fpc" g] Cons.prems(1) g(2) apply_call_prec [of c fpc]
      by simp
  qed
  moreover have "sorted_wrt fle (observed_values cs (apply_call c fpc))"
    using Cons.IH [OF p] Cons.prems(2,3) by simp
  ultimately show ?case by simp
qed

theorem counter_values_non_decreasing_witness:
  "prec (FixedPrecisionGauge (NewFixedPrecisionCounter () 3)) \<noteq> 0
   \<and> list_all float64_call [Call_Inc, Call_Add (float64_const 423 10), Call_Add (float64_of_int (- 1)), Call_Inc]
   \<and> all_within_int64 [Call_Inc, Call_Add (float64_const 423 10), Call_Add (float64_of_int (- 1)), Call_Inc]
        (NewFixedPrecisionCounter () 3)
   \<and> sorted_wrt fle
        (observed_values [Call_Inc, Call_Add (float64_const 423 10), Call_Add (float64_of_int (- 1)), Call_Inc]
           (NewFixedPrecisionCounter () 3))
   \<and> observed_values [Call_Inc, Call_Add (float64_const 423 10), Call_Add (float64_of_int (- 1)), Call_Inc]
        (NewFixedPrecisionCounter () 3)
      = [float64_const 0 1, float64_const 1 1, float64_const 433 10, float64_const 433 10, float64_const 443 10]"
proof -
  let ?cs = "[Call_Inc, Call_Add (Finite False 5953195757430374 (- 47)),
    Call_Add (Finite True 4503599627370496 (- 52)), Call_Inc]"
  let ?c = "\<lparr>FixedPrecisionGauge = \<lparr>val = 0, prec = 1000, desc = ()\<rparr>\<rparr>"
  have a: "prec (FixedPrecisionGauge ?c) \<noteq> 0" by simp
  have b: "list_all float64_call ?cs" by simp
  have c: "all_within_int64 ?cs ?c"
    by (simp only: all_within_int64.simps counter_3_steps counter_3_within simp_thms)
  have d: "observed_values ?cs ?c = [Finite False 0 (- 1074), Finite False 4503599627370496 (- 52),
      Finite False 6093933245785702 (- 47), Finite False 6093933245785702 (- 47),
      Finite False 6234670734141030 (- 47)]"
    by (simp only: observed_values.simps counter_3_steps counter_3_values)
  have e: "float64_const 0 1 = Finite False 0 (- 1074)" "float64_const 1 1 = Finite False 4503599627370496 (- 52)"
    "float64_const 433 10 = Finite False 6093933245785702 (- 47)"
    "float64_const 443 10 = Finite False 6234670734141030 (- 47)"
    by (simp_all add: float64_eval)
  show ?thesis
    unfolding NewCounter_3 const_42_3 float64_minus_one e
    using a b c d counter_values_non_decreasing [OF a b c] by simp
qed

text \<open>
  C1 as the specification states it fails. \<open>Dec\<close>, \<open>Set\<close> and \<open>Sub\<close> can be called on the
  counter and lower \<open>Value()\<close> from 0 to \<open>-1\<close>; and at precision 18 the tenth \<open>Inc()\<close> exceeds \<open>int64\<close>,
  after which \<open>Value()\<close> is negative, below the \<open>9\<close> it was.
\<close>

theorem counter_Value_decreases:
  "flt (FixedPrecisionCounter_Value (FixedPrecisionCounter_Dec (NewFixedPrecisionCounter () 0)))
       (FixedPrecisionCounter_Value (NewFixedPrecisionCounter () 0))
   \<and> flt (FixedPrecisionCounter_Value (FixedPrecisionCounter_Set (float64_const (- 1) 1) (NewFixedPrecisionCounter () 0)))
       (FixedPrecisionCounter_Value (NewFixedPrecisionCounter () 0))
   \<and> flt (FixedPrecisionCounter_Value (FixedPrecisionCounter_Sub (float64_const 1 1) (NewFixedPrecisionCounter () 0)))
       (FixedPrecisionCounter_Value (NewFixedPrecisionCounter () 0))
   \<and> flt (FixedPrecisionCounter_Value ((FixedPrecisionCounter_Inc ^^ 10) (NewFixedPrecisionCounter () 18)))
       (FixedPrecisionCounter_Value ((FixedPrecisionCounter_Inc ^^ 9) (NewFixedPrecisionCounter () 18)))"
proof -
  have "(FixedPrecisionCounter_Inc ^^ 10) (NewFixedPrecisionCounter () 18)
      = FixedPrecisionCounter_Inc ((FixedPrecisionCounter_Inc ^^ 9) (NewFixedPrecisionCounter () 18))"
    by (simp add: eval_nat_numeral)
  then show ?thesis
    unfolding NewCounter_0 NewCounter_18 nine_Inc tenth_Inc wrapped_values Dec_values Set_minus_one
    by (simp only: wrapped_values Dec_values simp_thms)
qed

text \<open>
  C2. \<open>FixedPrecisionCounter.Add\<close> with an argument \<open>v < 0\<close> panics and leaves the counter as it
  was, so its \<open>val\<close> and what \<open>Value\<close> returns are those of before the call; with \<open>v \<ge> 0\<close> it
  returns, and the counter is the one that \<open>Add\<close> of the embedded gauge gives.
\<close>

theorem counter_Add_guard:
  "(flt v (float64_of_int 0) \<longrightarrow>
      FixedPrecisionCounter_Add v fpc = (Panicked ''counter cannot decrease in value'', fpc)
      \<and> val (FixedPrecisionGauge (snd (FixedPrecisionCounter_Add v fpc))) = val (FixedPrecisionGauge fpc)
      \<and> FixedPrecisionGauge_Value (FixedPrecisionGauge (snd (FixedPrecisionCounter_Add v fpc)))
          = FixedPrecisionGauge_Value (FixedPrecisionGauge fpc))
   \<and> (fle (float64_of_int 0) v \<longrightarrow>
      FixedPrecisionCounter_Add v fpc
        = (Returned, fpc\<lparr>FixedPrecisionGauge := FixedPrecisionGauge_Add v (FixedPrecisionGauge fpc)\<rparr>))"
  by (auto simp: FixedPrecisionCounter_Add_def flt_def fle_def)

theorem counter_Add_guard_witness:
  "flt (float64_of_int (- 1)) (float64_of_int 0)
   \<and> FixedPrecisionCounter_Add (float64_of_int (- 1))
        \<lparr>FixedPrecisionGauge = \<lparr>val = 1000, prec = 1000, desc = ()\<rparr>\<rparr>
      = (Panicked ''counter cannot decrease in value'',
         \<lparr>FixedPrecisionGauge = \<lparr>val = 1000, prec = 1000, desc = ()\<rparr>\<rparr>)
   \<and> fle (float64_of_int 0) (float64_of_int 1)
   \<and> FixedPrecisionCounter_Add (float64_of_int 1) (NewFixedPrecisionCounter () 3)
      = (Returned, \<lparr>FixedPrecisionGauge = \<lparr>val = 1000, prec = 1000, desc = ()\<rparr>\<rparr>)"
proof -
  have a: "flt (float64_of_int (- 1)) (float64_of_int 0)"
    by (simp add: flt_def float64_eval)
  have b: "fle (float64_of_int 0) (float64_of_int 1)"
    by (simp add: fle_def float64_eval)
  have c: "FixedPrecisionGauge_Add (float64_of_int 1) \<lparr>val = 0, prec = 1000, desc = ()\<rparr>
    = \<lparr>val = 1000, prec = 1000, desc = ()\<rparr>"
    by (simp add: gauge_defs float64_eval)
  show ?thesis
    using a b c
      counter_Add_guard [of "float64_of_int (- 1)"
        "\<lparr>FixedPrecisionGauge = \<lparr>val = 1000, prec = 1000, desc = ()\<rparr>\<rparr>"]
      counter_Add_guard [of "float64_of_int 1" "NewFixedPrecisionCounter () 3"]
    by (simp add: NewCounter_3)
qed

text \<open>
  C3. \<open>Set\<close> stores \<open>int64(v) * prec\<close>: the argument is truncated to an integer first and
  scaled after. So \<open>Set(0.5)\<close> on a gauge of precision 3 stores 0 where \<open>Add(0.5)\<close> adds 500,
  and \<open>Value\<close> is then \<open>0\<close>, which is not \<open>0.5\<close>.
\<close>

theorem Set_truncates_before_scaling:
  "val (FixedPrecisionGauge_Set v fpg) = int64_of_float64 v * prec fpg
   \<and> val (FixedPrecisionGauge_Set (float64_const 1 2) (NewFixedPrecisionGauge d 3)) = 0
   \<and> FixedPrecisionGauge_Value (FixedPrecisionGauge_Set (float64_const 1 2) (NewFixedPrecisionGauge d 3))
       = float64_of_int 0
   \<and> \<not> feq (FixedPrecisionGauge_Value
               (FixedPrecisionGauge_Set (float64_const 1 2) (NewFixedPrecisionGauge d 3)))
            (float64_const 1 2)"
  by (simp add: New_3 gauge_defs feq_def float64_eval)

text \<open>
  C4. \<open>Add\<close> adds \<open>int64(delta * float64(prec))\<close> to \<open>val\<close>, in the arithmetic of \<open>int64\<close>, and
  leaves \<open>prec\<close> and \<open>desc\<close> as they are. The product is taken first and truncated after,
  towards zero: on a gauge of precision 3, \<open>Add(0.5)\<close> adds 500, \<open>Add(0.0015)\<close> adds 1 and
  \<open>Add(-0.0015)\<close> adds \<open>-1\<close>.
\<close>

theorem Add_scales_before_truncating:
  "val (FixedPrecisionGauge_Add delta fpg)
     = val fpg + int64_of_float64 (fmul delta (float64_of_uint (prec fpg)))
   \<and> prec (FixedPrecisionGauge_Add delta fpg) = prec fpg
   \<and> desc (FixedPrecisionGauge_Add delta fpg) = desc fpg
   \<and> val (FixedPrecisionGauge_Add (float64_const 1 2) (NewFixedPrecisionGauge d 3)) = 500
   \<and> val (FixedPrecisionGauge_Add (float64_const 15 10000) (NewFixedPrecisionGauge d 3)) = 1
   \<and> val (FixedPrecisionGauge_Add (float64_const (- 15) 10000) (NewFixedPrecisionGauge d 3)) = - 1"
  by (simp add: New_3 gauge_defs float64_eval)

text \<open>
  C5. On a gauge whose scale factor is that of a precision from 0 to 18, \<open>Inc()\<close> gives the
  gauge that \<open>Add(1.0)\<close> gives, and \<open>Dec()\<close> the one that \<open>Add(-1.0)\<close> gives.
\<close>

theorem Inc_Dec_are_unit_Add:
  assumes "p \<le> 18" and "prec fpg = prec (NewFixedPrecisionGauge (desc fpg) p)"
  shows "FixedPrecisionGauge_Inc fpg = FixedPrecisionGauge_Add (float64_const 1 1) fpg
    \<and> FixedPrecisionGauge_Dec fpg = FixedPrecisionGauge_Add (float64_const (- 1) 1) fpg"
  using unit_delta [OF prec_New_le_18 [OF assms(1), of "desc fpg"]] assms(2)
  by (simp add: FixedPrecisionGauge_Inc_def FixedPrecisionGauge_Dec_def FixedPrecisionGauge_add_def
      FixedPrecisionGauge_Add_def)

theorem Inc_Dec_are_unit_Add_witness:
  "(3 :: 64 word) \<le> 18
   \<and> prec \<lparr>val = 43300, prec = 1000, desc = ()\<rparr> = prec (NewFixedPrecisionGauge () 3)
   \<and> FixedPrecisionGauge_Inc \<lparr>val = 43300, prec = 1000, desc = ()\<rparr>
       = FixedPrecisionGauge_Add (float64_const 1 1) \<lparr>val = 43300, prec = 1000, desc = ()\<rparr>
   \<and> FixedPrecisionGauge_Dec \<lparr>val = 43300, prec = 1000, desc = ()\<rparr>
       = FixedPrecisionGauge_Add (float64_const (- 1) 1) \<lparr>val = 43300, prec = 1000, desc = ()\<rparr>
   \<and> val (FixedPrecisionGauge_Inc \<lparr>val = 43300, prec = 1000, desc = ()\<rparr>) = 44300"
proof -
  have a: "(3 :: 64 word) \<le> 18" by simp
  have b: "prec \<lparr>val = 43300, prec = 1000, desc = ()\<rparr>
    = prec (NewFixedPrecisionGauge (desc \<lparr>val = 43300, prec = 1000, desc = ()\<rparr>) 3)"
    by (simp add: prec_New)
  have c: "val (FixedPrecisionGauge_Inc \<lparr>val = 43300, prec = 1000, desc = ()\<rparr>) = 44300"
    by (simp add: gauge_defs)
  show ?thesis
    using a b c Inc_Dec_are_unit_Add [OF a b] by simp
qed

text \<open>
  C5 as the specification states it, for every gauge, fails at precision 19. There the
  scale factor \<open>10^19\<close> is beyond \<open>int64\<close>: \<open>Inc()\<close> adds \<open>10^19 - 2^64\<close>, and \<open>Add(1.0)\<close> adds
  what the conversion of the float64 \<open>1e19\<close> gives.
\<close>

theorem Inc_is_not_Add_at_precision_19:
  "val (FixedPrecisionGauge_Inc (NewFixedPrecisionGauge () 19)) = word_of_int (- 8446744073709551616)
   \<and> val (FixedPrecisionGauge_Add (float64_const 1 1) (NewFixedPrecisionGauge () 19))
       = word_of_int (- 9223372036854775808)
   \<and> FixedPrecisionGauge_Inc (NewFixedPrecisionGauge () 19)
       \<noteq> FixedPrecisionGauge_Add (float64_const 1 1) (NewFixedPrecisionGauge () 19)"
proof -
  have n: "NewFixedPrecisionGauge () 19 = \<lparr>val = 0, prec = 10000000000000000000, desc = ()\<rparr>"
    by (simp add: NewFixedPrecisionGauge_def float64_eval)
  have a: "val (FixedPrecisionGauge_Inc \<lparr>val = 0, prec = 10000000000000000000, desc = ()\<rparr>)
    = word_of_int (- 8446744073709551616)"
    by (simp add: gauge_defs)
  have b: "val (FixedPrecisionGauge_Add (float64_const 1 1)
      \<lparr>val = 0, prec = 10000000000000000000, desc = ()\<rparr>) = word_of_int (- 9223372036854775808)"
    by (simp add: gauge_defs float64_eval)
  have "(word_of_int (- 8446744073709551616) :: 64 word) \<noteq> word_of_int (- 9223372036854775808)"
    by simp
  with a b show ?thesis
    unfolding n by metis
qed

text \<open>
  C6. \<open>Sub(v)\<close> and \<open>Add(-v)\<close> give the same gauge, for every float64 \<open>v\<close> and every gauge.
\<close>

theorem Sub_is_Add_of_negation:
  "is_float64 v \<Longrightarrow> FixedPrecisionGauge_Sub v fpg = FixedPrecisionGauge_Add (fneg v) fpg"
  by (simp add: FixedPrecisionGauge_Sub_def fmul_minus_one)

theorem Sub_is_Add_of_negation_witness:
  "is_float64 (float64_const 423 10)
   \<and> FixedPrecisionGauge_Sub (float64_const 423 10) \<lparr>val = - 1000, prec = 1000, desc = ()\<rparr>
      = FixedPrecisionGauge_Add (fneg (float64_const 423 10)) \<lparr>val = - 1000, prec = 1000, desc = ()\<rparr>
   \<and> val (FixedPrecisionGauge_Sub (float64_const 423 10) \<lparr>val = - 1000, prec = 1000, desc = ()\<rparr>)
      = - 43300"
proof -
  have a: "is_float64 (float64_const 423 10)"
    by (simp add: float64_eval)
  have b: "val (FixedPrecisionGauge_Add (fneg (float64_const 423 10))
      \<lparr>val = - 1000, prec = 1000, desc = ()\<rparr>) = - 43300"
    by (simp add: gauge_defs float64_eval)
  show ?thesis
    using a b Sub_is_Add_of_negation [OF a, of "\<lparr>val = - 1000, prec = 1000, desc = ()\<rparr>"]
    by simp
qed

text \<open>
  C7. On a new gauge of precision 0, \<open>Inc()\<close> and \<open>Add(0.9999999999999999999)\<close> leave
  \<open>Value() == 2\<close>, and \<open>Sub(2.9999999999999999999)\<close> after them leaves \<open>Value() == -1\<close>; the
  two constants are the float64 values 1 and 3.
\<close>

theorem no_precision_gauge:
  "float64_const 9999999999999999999 (10 ^ 19) = float64_const 1 1
   \<and> float64_const 29999999999999999999 (10 ^ 19) = float64_const 3 1
   \<and> (let c1 = FixedPrecisionGauge_Inc (NewFixedPrecisionGauge d 0);
          c2 = FixedPrecisionGauge_Add (float64_const 9999999999999999999 (10 ^ 19)) c1;
          c3 = FixedPrecisionGauge_Sub (float64_const 29999999999999999999 (10 ^ 19)) c2
      in feq (FixedPrecisionGauge_Value c2) (float64_const 2 1)
         \<and> feq (FixedPrecisionGauge_Value c3) (float64_const (- 1) 1))"
  unfolding const_nines const_two_nines New_0 Inc_0 Add_1 Sub_3 Let_def
  using Value_2 [of d] Value_m1 [of d] by (simp only: const_one const_three simp_thms)

text \<open>
  C8. \<open>Write\<close> returns the error \<open>nil\<close>, leaves the gauge as it is, and sets the field
  \<open>Counter\<close> of the metric to a counter whose value is what \<open>Value\<close> returns; the other
  fields of the metric stay.
\<close>

theorem Write_reads_only:
  "fst (FixedPrecisionGauge_Write out fpg) = None
   \<and> snd (snd (FixedPrecisionGauge_Write out fpg)) = fpg
   \<and> Counter (fst (snd (FixedPrecisionGauge_Write out fpg)))
       = Some \<lparr>Value = Some (FixedPrecisionGauge_Value fpg)\<rparr>
   \<and> dto_Metric.more (fst (snd (FixedPrecisionGauge_Write out fpg))) = dto_Metric.more out
   \<and> FixedPrecisionGauge_Value fpg = fdiv (float64_of_int64 (val fpg)) (float64_of_uint (prec fpg))"
  by (simp add: FixedPrecisionGauge_Write_def FixedPrecisionGauge_Value_def)

text \<open>
  C9. \<open>N\<close> threads call \<open>Inc()\<close> \<open>M\<close> times each on a new gauge of precision 0, in any
  interleaving, and \<open>N * M < 2^63\<close>. At every point of the execution \<open>val\<close> is the number of
  calls made so far, and the calls that are left can be made. When none is left, \<open>val\<close> is
  \<open>N * M\<close> and \<open>Value()\<close> equals \<open>float64(N * M)\<close>, which is the number \<open>N * M\<close> itself up to
  \<open>2^53\<close>.
\<close>

theorem concurrent_Inc_counts_every_call:
  assumes run: "Inc_step\<^sup>*\<^sup>* (replicate N M, NewFixedPrecisionGauge d 0) (pending, fpg)"
    and bound: "N * M < 2 ^ 63"
  shows "val fpg = of_nat (N * M - sum_list pending) \<and> prec fpg = 1
    \<and> (\<exists>fpg'. Inc_step\<^sup>*\<^sup>* (pending, fpg) (map (\<lambda>_. 0) pending, fpg'))
    \<and> (sum_list pending = 0 \<longrightarrow>
         sint (val fpg) = int (N * M)
         \<and> feq (FixedPrecisionGauge_Value fpg) (float64_of_int (int (N * M)))
         \<and> (N * M \<le> 2 ^ 53 \<longrightarrow> units (FixedPrecisionGauge_Value fpg) = int (N * M) * 2 ^ 1074))"
proof -
  have inv: "prec fpg = 1" "sum_list pending \<le> N * M"
    "val fpg + of_nat (sum_list pending) = of_nat (N * M)"
    using Inc_step_invariant [OF run [unfolded New_0]] by (simp_all add: sum_list_replicate)
  have "val fpg = of_nat (N * M) - of_nat (sum_list pending)"
    using inv(3) by (simp add: algebra_simps)
  then have v: "val fpg = of_nat (N * M - sum_list pending)"
    using inv(2) by (simp add: of_nat_diff)
  have ex: "\<exists>fpg'. Inc_step\<^sup>*\<^sup>* (pending, fpg) (map (\<lambda>_. 0) pending, fpg')"
    using Inc_run_to_end [of pending fpg] by blast
  have fin: "sint (val fpg) = int (N * M)
      \<and> feq (FixedPrecisionGauge_Value fpg) (float64_of_int (int (N * M)))
      \<and> (N * M \<le> 2 ^ 53 \<longrightarrow> units (FixedPrecisionGauge_Value fpg) = int (N * M) * 2 ^ 1074)"
    if z: "sum_list pending = 0"
  proof -
    define K where "K = int (N * M)"
    have s: "sint (val fpg) = K"
      using v z sint_of_nat_64 [OF bound] by (simp add: K_def)
    have "K < 2 ^ 63" unfolding K_def using bound
      by (metis of_nat_less_iff of_nat_numeral of_nat_power)
    moreover have "0 \<le> K" by (simp add: K_def)
    ultimately have "\<bar>K\<bar> \<le> 2 ^ 64" by simp
    then obtain m e where F: "float64_of_int K = Finite (K < 0) m e"
      using float64_of_int_finite [of K] by blast
    have c: "is_float64 (Finite (K < 0) m e)"
      using is_float64_of_int [of K] unfolding F .
    have V: "FixedPrecisionGauge_Value fpg = fdiv (Finite (K < 0) m e) (float64_of_int 1)"
      by (simp add: FixedPrecisionGauge_Value_def float64_of_int64_def float64_of_uint_def inv(1) s F)
    have u: "units (FixedPrecisionGauge_Value fpg) = units (float64_of_int K)"
      and n: "FixedPrecisionGauge_Value fpg \<noteq> NaN"
      unfolding V F using units_fdiv_one [OF c] by simp_all
    have "feq (FixedPrecisionGauge_Value fpg) (float64_of_int K)"
      using u n units_float64_of_int(1) [of K] by (simp add: feq_def)
    moreover have "units (FixedPrecisionGauge_Value fpg) = K * 2 ^ 1074" if "N * M \<le> 2 ^ 53"
    proof -
      have "K \<le> 2 ^ 53" using that unfolding K_def
        by (metis of_nat_le_iff of_nat_numeral of_nat_power)
      then show ?thesis using units_float64_of_int_exact [of K] u by (simp add: K_def)
    qed
    ultimately show ?thesis using s unfolding K_def by simp
  qed
  show ?thesis using v inv(1) ex fin by simp
qed

theorem concurrent_Inc_counts_every_call_witness:
  "Inc_step\<^sup>*\<^sup>* (replicate 2 2, NewFixedPrecisionGauge () 0) ([0, 0], \<lparr>val = 4, prec = 1, desc = ()\<rparr>)
   \<and> (2::nat) * 2 < 2 ^ 63
   \<and> sum_list [0, 0 :: nat] = 0
   \<and> sint (val \<lparr>val = 4, prec = 1, desc = ()\<rparr>) = int (2 * 2)
   \<and> feq (FixedPrecisionGauge_Value \<lparr>val = 4, prec = 1, desc = ()\<rparr>) (float64_of_int (int (2 * 2)))
   \<and> units (FixedPrecisionGauge_Value \<lparr>val = 4, prec = 1, desc = ()\<rparr>) = int (2 * 2) * 2 ^ 1074"
proof -
  let ?g = "\<lambda>v :: 64 word. \<lparr>val = v, prec = 1, desc = ()\<rparr>"
  have s1: "Inc_step ([2, 2], ?g 0) ([1, 2], ?g 1)"
    using thread_Inc [of 0 "[2, 2]" 1 "?g 0"] by (simp add: gauge_defs)
  have s2: "Inc_step ([1, 2], ?g 1) ([1, 1], ?g 2)"
    using thread_Inc [of 1 "[1, 2]" 1 "?g 1"] by (simp add: gauge_defs)
  have s3: "Inc_step ([1, 1], ?g 2) ([1, 0], ?g 3)"
    using thread_Inc [of 1 "[1, 1]" 0 "?g 2"] by (simp add: gauge_defs)
  have s4: "Inc_step ([1, 0], ?g 3) ([0, 0], ?g 4)"
    using thread_Inc [of 0 "[1, 0]" 0 "?g 3"] by (simp add: gauge_defs)
  have "Inc_step\<^sup>*\<^sup>* ([2, 2], ?g 0) ([0, 0], ?g 4)"
    using s1 s2 s3 s4 by (meson rtranclp.rtrancl_into_rtrancl rtranclp.rtrancl_refl)
  moreover have "replicate 2 (2::nat) = [2, 2]" by (simp add: numeral_2_eq_2)
  ultimately have run: "Inc_step\<^sup>*\<^sup>* (replicate 2 2, NewFixedPrecisionGauge () 0) ([0, 0], ?g 4)"
    by (simp only: New_0)
  have bound: "(2::nat) * 2 < 2 ^ 63" by simp
  show ?thesis
    using run bound concurrent_Inc_counts_every_call [OF run bound] by simp
qed

text \<open>
  C9 as the specification states it, for all \<open>N\<close> and \<open>M\<close>, fails where \<open>N * M\<close> reaches
  \<open>2^63\<close>: after two threads with \<open>2^62\<close> calls each, \<open>val\<close> has wrapped to \<open>-2^63\<close> and
  \<open>Value()\<close> is negative.
\<close>

theorem concurrent_Inc_wraps_at_2_63:
  "Inc_step\<^sup>*\<^sup>* (replicate 2 (2 ^ 62), NewFixedPrecisionGauge () 0)
      ([0, 0], \<lparr>val = 0x8000000000000000, prec = 1, desc = ()\<rparr>)
   \<and> flt (FixedPrecisionGauge_Value \<lparr>val = 0x8000000000000000, prec = 1, desc = ()\<rparr>) (float64_of_int 0)
   \<and> \<not> feq (FixedPrecisionGauge_Value \<lparr>val = 0x8000000000000000, prec = 1, desc = ()\<rparr>)
         (float64_of_int (2 * 2 ^ 62))"
proof -
  have "Inc_step\<^sup>*\<^sup>* ([2 ^ 62, 2 ^ 62], \<lparr>val = 0, prec = 1, desc = ()\<rparr>)
      ([0, 0], \<lparr>val = 0x8000000000000000, prec = 1, desc = ()\<rparr>)"
    using Inc_run_to_end [of "[2 ^ 62, 2 ^ 62]" "\<lparr>val = 0, prec = 1, desc = ()\<rparr>"] by simp
  moreover have "replicate 2 ((2::nat) ^ 62) = [2 ^ 62, 2 ^ 62]"
    by (simp only: numeral_2_eq_2 replicate.simps)
  ultimately have run: "Inc_step\<^sup>*\<^sup>* (replicate 2 (2 ^ 62), NewFixedPrecisionGauge () 0)
      ([0, 0], \<lparr>val = 0x8000000000000000, prec = 1, desc = ()\<rparr>)"
    by (simp only: New_0)
  have v: "FixedPrecisionGauge_Value \<lparr>val = 0x8000000000000000, prec = 1, desc = ()\<rparr>
      = Finite True (2 ^ 52) 11"
    by (simp add: gauge_defs float64_eval)
  have a: "flt (Finite True (2 ^ 52) 11) (float64_of_int 0)"
    by (simp add: flt_def float64_zero)
  have b: "\<not> feq (Finite True (2 ^ 52) 11) (float64_of_int (2 * 2 ^ 62))"
    by (simp add: feq_def float64_eval)
  show ?thesis using run a b unfolding v by simp
qed

text \<open>
  C10. \<open>FixedPrecisionCounter.Add\<close> does not panic on a NaN: \<open>NaN < 0\<close> is false, the call
  goes on to \<open>Add\<close> of the embedded gauge, and \<open>val\<close> is not what it was: the conversion of
  the NaN product adds \<open>0x8000000000000000\<close> to it.
\<close>

theorem counter_Add_NaN:
  "\<not> flt NaN (float64_of_int 0)
   \<and> FixedPrecisionCounter_Add NaN fpc
       = (Returned, fpc\<lparr>FixedPrecisionGauge := FixedPrecisionGauge_Add NaN (FixedPrecisionGauge fpc)\<rparr>)
   \<and> val (FixedPrecisionGauge (snd (FixedPrecisionCounter_Add NaN fpc)))
       = val (FixedPrecisionGauge fpc) + 0x8000000000000000
   \<and> val (FixedPrecisionGauge (snd (FixedPrecisionCounter_Add NaN fpc))) \<noteq> val (FixedPrecisionGauge fpc)"
  by (simp add: FixedPrecisionCounter_Add_def flt_def FixedPrecisionGauge_Add_def int64_of_float64_def)

end
